theory Spec2Isabelle
  imports Main "HOL-Library.Multiset"
begin

section \<open>Library functions the program calls\<close>

text \<open>
  Go strings are byte sequences; they are modelled as \<open>string\<close> (a list of 8-bit
  characters). The functions of this section belong to Go's standard library
  (\<open>strings\<close>, \<open>time\<close>, \<open>fmt\<close>, \<open>path\<close>, \<open>os\<close>, \<open>html/template\<close>), not to the
  repository; each is written out from its documented behaviour, for the arguments the
  program passes.
\<close>

subsection \<open>Package strings\<close>

definition HasPrefix :: "string \<Rightarrow> string \<Rightarrow> bool" where
  "HasPrefix s p = (take (length p) s = p)"

text \<open>
  \<open>strings.TrimLeft(s, cutset)\<close> removes every leading character that occurs in
  \<open>cutset\<close>; the cutset is a set of characters, not a prefix.
\<close>

definition TrimLeft :: "string \<Rightarrow> string \<Rightarrow> string" where
  "TrimLeft s cutset = dropWhile (\<lambda>c. c \<in> set cutset) s"

text \<open>
  The UTF-8 encodings of the code points with Unicode's White Space property
  (U+0009..U+000D, U+0020, U+0085, U+00A0, U+1680, U+2000..U+200A, U+2028, U+2029,
  U+202F, U+205F, U+3000), which is what \<open>unicode.IsSpace\<close> accepts.
\<close>

definition spaceRunes :: "string list" where
  "spaceRunes =
     [[CHR 0x09], [CHR 0x0A], [CHR 0x0B], [CHR 0x0C], [CHR 0x0D], [CHR 0x20],
      [CHR 0xC2, CHR 0x85], [CHR 0xC2, CHR 0xA0],
      [CHR 0xE1, CHR 0x9A, CHR 0x80],
      [CHR 0xE2, CHR 0x80, CHR 0x80], [CHR 0xE2, CHR 0x80, CHR 0x81],
      [CHR 0xE2, CHR 0x80, CHR 0x82], [CHR 0xE2, CHR 0x80, CHR 0x83],
      [CHR 0xE2, CHR 0x80, CHR 0x84], [CHR 0xE2, CHR 0x80, CHR 0x85],
      [CHR 0xE2, CHR 0x80, CHR 0x86], [CHR 0xE2, CHR 0x80, CHR 0x87],
      [CHR 0xE2, CHR 0x80, CHR 0x88], [CHR 0xE2, CHR 0x80, CHR 0x89],
      [CHR 0xE2, CHR 0x80, CHR 0x8A],
      [CHR 0xE2, CHR 0x80, CHR 0xA8], [CHR 0xE2, CHR 0x80, CHR 0xA9],
      [CHR 0xE2, CHR 0x80, CHR 0xAF],
      [CHR 0xE2, CHR 0x81, CHR 0x9F],
      [CHR 0xE3, CHR 0x80, CHR 0x80]]"

text \<open>
  \<open>stripLeft es s\<close> removes from the front of \<open>s\<close>, repeatedly, whichever byte
  sequence of \<open>es\<close> stands there.
\<close>

fun stripLeft :: "string list \<Rightarrow> string \<Rightarrow> string" where
  "stripLeft es [] = []"
| "stripLeft es (c # cs) =
     (case find (HasPrefix (c # cs)) es of
        None \<Rightarrow> c # cs
      | Some e \<Rightarrow> stripLeft es (drop (length e - 1) cs))"

text \<open>
  \<open>strings.TrimSpace\<close>: leading white space is removed first, then trailing white
  space (the same byte sequences, read from the end).
\<close>

definition TrimSpace :: "string \<Rightarrow> string" where
  "TrimSpace s = rev (stripLeft (map rev spaceRunes) (rev (stripLeft spaceRunes s)))"

text \<open>\<open>strings.Split(s, sep)\<close> for a one-byte separator: always at least one piece.\<close>

fun Split :: "string \<Rightarrow> char \<Rightarrow> string list" where
  "Split [] sep = [[]]"
| "Split (c # cs) sep =
     (if c = sep then [] # Split cs sep
      else (case Split cs sep of
              [] \<Rightarrow> [[c]]
            | p # ps \<Rightarrow> (c # p) # ps))"

text \<open>\<open>strings.Join(elems, sep)\<close>.\<close>

fun Join :: "string list \<Rightarrow> string \<Rightarrow> string" where
  "Join [] sep = []"
| "Join [e] sep = e"
| "Join (e # es) sep = e @ sep @ Join es sep"

subsection \<open>Package fmt: the verb \<open>%d\<close>\<close>

definition digitChar :: "nat \<Rightarrow> char" where
  "digitChar n = ''0123456789'' ! (n mod 10)"

fun decimal :: "nat \<Rightarrow> string" where
  "decimal n = (if n < 10 then [digitChar n] else decimal (n div 10) @ [digitChar n])"

declare decimal.simps [simp del]

definition Sprintf_d :: "int \<Rightarrow> string" where
  "Sprintf_d i = (if i < 0 then CHR ''-'' # decimal (nat (- i)) else decimal (nat i))"

subsection \<open>Package time\<close>

text \<open>
  A \<open>time.Time\<close> that carries a calendar date only (midnight, UTC), which is all that
  the layout \<open>2006/01/02\<close> can produce. The zero \<open>time.Time\<close> is 1 January of year 1.
\<close>

record Time =
  year :: nat
  month :: nat
  day :: nat

definition zeroTime :: Time where
  "zeroTime = \<lparr>year = 1, month = 1, day = 1\<rparr>"

datatype error =
    ParseError string
  | PathError string string
  | Fatal string

definition isDigit :: "char \<Rightarrow> bool" where
  "isDigit c = (c \<in> set ''0123456789'')"

definition digitVal :: "char \<Rightarrow> nat" where
  "digitVal c = of_char c - 48"

definition isLeap :: "nat \<Rightarrow> bool" where
  "isLeap y = (y mod 4 = 0 \<and> (y mod 100 \<noteq> 0 \<or> y mod 400 = 0))"

definition daysIn :: "nat \<Rightarrow> nat \<Rightarrow> nat" where
  "daysIn m y =
     (if m = 2 then (if isLeap y then 29 else 28)
      else if m = 4 \<or> m = 6 \<or> m = 9 \<or> m = 11 then 30
      else 31)"

text \<open>The layout element \<open>2006\<close>: exactly four digits.\<close>

fun getYear :: "string \<Rightarrow> (nat \<times> string) option" where
  "getYear (a # b # c # d # rest) =
     (if isDigit a \<and> isDigit b \<and> isDigit c \<and> isDigit d
      then Some (digitVal a * 1000 + digitVal b * 100 + digitVal c * 10 + digitVal d, rest)
      else None)"
| "getYear _ = None"

text \<open>The layout elements \<open>01\<close> and \<open>02\<close>: exactly two digits.\<close>

fun getnum :: "string \<Rightarrow> (nat \<times> string) option" where
  "getnum (a # b # rest) =
     (if isDigit a \<and> isDigit b then Some (digitVal a * 10 + digitVal b, rest) else None)"
| "getnum _ = None"

text \<open>A literal character of the layout.\<close>

fun skip :: "char \<Rightarrow> string \<Rightarrow> string option" where
  "skip c (x # rest) = (if x = c then Some rest else None)"
| "skip c [] = None"

text \<open>
  \<open>time.Parse("2006/01/02", v)\<close>: year, slash, month, slash, day, nothing after; the
  month lies in 1..12 and the day exists in that month of that year.
\<close>

definition timeParse :: "string \<Rightarrow> Time \<times> error option" where
  "timeParse v =
     (case getYear v of
        None \<Rightarrow> (zeroTime, Some (ParseError v))
      | Some (y, v1) \<Rightarrow>
     (case skip CHR ''/'' v1 of
        None \<Rightarrow> (zeroTime, Some (ParseError v))
      | Some v2 \<Rightarrow>
     (case getnum v2 of
        None \<Rightarrow> (zeroTime, Some (ParseError v))
      | Some (m, v3) \<Rightarrow>
     (case skip CHR ''/'' v3 of
        None \<Rightarrow> (zeroTime, Some (ParseError v))
      | Some v4 \<Rightarrow>
     (case getnum v4 of
        None \<Rightarrow> (zeroTime, Some (ParseError v))
      | Some (d, v5) \<Rightarrow>
          if v5 = [] \<and> 1 \<le> m \<and> m \<le> 12 \<and> 1 \<le> d \<and> d \<le> daysIn m y
          then (\<lparr>year = y, month = m, day = d\<rparr>, None)
          else (zeroTime, Some (ParseError v)))))))"

definition monthAbbrev :: "nat \<Rightarrow> string" where
  "monthAbbrev m =
     [''Jan'', ''Feb'', ''Mar'', ''Apr'', ''May'', ''Jun'',
      ''Jul'', ''Aug'', ''Sep'', ''Oct'', ''Nov'', ''Dec''] ! ((m - 1) mod 12)"

text \<open>\<open>t.Format("2 Jan 2006")\<close>: the day unpadded, the year padded to four digits.\<close>

definition Format :: "Time \<Rightarrow> string" where
  "Format t =
     decimal (day t) @ '' '' @ monthAbbrev (month t) @ '' '' @
     replicate (4 - length (decimal (year t))) CHR ''0'' @ decimal (year t)"

subsection \<open>Package path\<close>

text \<open>
  \<open>path.Clean\<close>, on the slash-separated elements of the path: empty elements and
  \<open>.\<close> are dropped, \<open>..\<close> removes the element before it (at the root it is dropped,
  at the front of a relative path it stays). \<open>out\<close> holds the elements kept so far,
  last one first.
\<close>

fun cleanElems :: "bool \<Rightarrow> string list \<Rightarrow> string list \<Rightarrow> string list" where
  "cleanElems rooted out [] = rev out"
| "cleanElems rooted out (e # es) =
     (if e = [] \<or> e = ''.'' then cleanElems rooted out es
      else if e = ''..'' then
        (case out of
           [] \<Rightarrow> if rooted then cleanElems rooted [] es else cleanElems rooted [e] es
         | x # xs \<Rightarrow>
             if x = ''..'' then cleanElems rooted (e # out) es
             else cleanElems rooted xs es)
      else cleanElems rooted (e # out) es)"

definition Clean :: "string \<Rightarrow> string" where
  "Clean p =
     (if p = [] then ''.''
      else
        let rooted = (hd p = CHR ''/'');
            r = (if rooted then ''/'' else []) @ Join (cleanElems rooted [] (Split p CHR ''/'')) ''/''
        in if r = [] then ''.'' else r)"

text \<open>\<open>path.Join\<close>: empty elements are ignored, the result is cleaned.\<close>

definition pathJoin :: "string list \<Rightarrow> string" where
  "pathJoin elem =
     (if filter (\<lambda>e. e \<noteq> []) elem = [] then []
      else Clean (Join (filter (\<lambda>e. e \<noteq> []) elem) ''/''))"

subsection \<open>Package os: a file system\<close>

text \<open>
  The file system is the set of directories and the content of each regular file, both
  keyed by path. A path is resolved by its text: there are no links, and every
  permission is granted. The parent of a path is what precedes its last slash. A path
  that is neither a directory nor a file is missing, whatever stands above it; writes
  never fail once the file is open.
\<close>

record fs =
  dirs :: "string set"
  files :: "string \<rightharpoonup> string"

definition parentDir :: "string \<Rightarrow> string" where
  "parentDir p =
     (case butlast (Split p CHR ''/'') of
        [] \<Rightarrow> ''.''
      | es \<Rightarrow> if Join es ''/'' = [] then ''/'' else Join es ''/'')"

definition exists :: "string \<Rightarrow> fs \<Rightarrow> bool" where
  "exists name s = (name \<in> dirs s \<or> files s name \<noteq> None)"

datatype flag = O_RDWR | O_CREATE | O_TRUNC

text \<open>
  \<open>os.OpenFile(name, flags, perm)\<close>. Opening a directory for writing fails. An
  existing file is emptied only under \<open>O_TRUNC\<close>. A missing file is created, empty,
  only under \<open>O_CREATE\<close> and only inside an existing directory. The handle returned is
  identified with the name; its offset is 0.
\<close>

definition OpenFile :: "string \<Rightarrow> flag list \<Rightarrow> fs \<Rightarrow> error + fs" where
  "OpenFile name flags s =
     (if name \<in> dirs s then Inl (PathError ''open'' name)
      else
        (case files s name of
           Some old \<Rightarrow>
             if O_TRUNC \<in> set flags then Inr (s\<lparr>files := (files s)(name \<mapsto> [])\<rparr>)
             else Inr s
         | None \<Rightarrow>
             if O_CREATE \<in> set flags \<and> parentDir name \<in> dirs s
             then Inr (s\<lparr>files := (files s)(name \<mapsto> [])\<rparr>)
             else Inl (PathError ''open'' name)))"

text \<open>Writing \<open>new\<close> at offset 0 of a file that holds \<open>old\<close>.\<close>

definition writeOver :: "string \<Rightarrow> string \<Rightarrow> string" where
  "writeOver old new = new @ drop (length new) old"

definition contentOf :: "fs \<Rightarrow> string \<Rightarrow> string" where
  "contentOf s name = (case files s name of None \<Rightarrow> [] | Some old \<Rightarrow> old)"

text \<open>
  What \<open>t.Execute(f, data)\<close> does to the file behind a handle fresh from
  \<open>OpenFile\<close>: the rendered bytes go to offset 0.
\<close>

definition writeAtStart :: "string \<Rightarrow> string \<Rightarrow> fs \<Rightarrow> fs" where
  "writeAtStart name new s = s\<lparr>files := (files s)(name \<mapsto> writeOver (contentOf s name) new)\<rparr>"

definition Mkdir :: "string \<Rightarrow> fs \<Rightarrow> error + fs" where
  "Mkdir name s =
     (if exists name s then Inl (PathError ''mkdir'' name)
      else if parentDir name \<in> dirs s then Inr (s\<lparr>dirs := insert name (dirs s)\<rparr>)
      else Inl (PathError ''mkdir'' name))"

subsection \<open>Package html/template: the escapers\<close>

text \<open>
  The escaper of a string in HTML text and in a quoted attribute: the seven characters
  of the package's replacement table are replaced, every other byte is copied.
\<close>

definition htmlReplacement :: "char \<Rightarrow> string" where
  \<open>htmlReplacement c =
     (if c = CHR 0x00 then [CHR 0xEF, CHR 0xBF, CHR 0xBD]
      else if c = CHR 0x22 then ''&#34;''
      else if c = CHR ''&'' then ''&amp;''
      else if c = CHR 0x27 then ''&#39;''
      else if c = CHR ''+'' then ''&#43;''
      else if c = CHR ''<'' then ''&lt;''
      else if c = CHR ''>'' then ''&gt;''
      else [c])\<close>

definition htmlEscaper :: "string \<Rightarrow> string" where
  "htmlEscaper s = concat (map htmlReplacement s)"

definition isHex :: "char \<Rightarrow> bool" where
  "isHex c = (c \<in> set ''0123456789abcdefABCDEF'')"

definition hexDigit :: "nat \<Rightarrow> char" where
  "hexDigit n = ''0123456789abcdef'' ! (n mod 16)"

definition urlKept :: "char \<Rightarrow> bool" where
  "urlKept c =
     (c \<in> set ''!#$&*+,/:;=?@[]-._~0123456789'' \<or>
      c \<in> set ''abcdefghijklmnopqrstuvwxyzABCDEFGHIJKLMNOPQRSTUVWXYZ'')"

text \<open>
  The URL normaliser: reserved and unreserved characters and well-formed percent
  escapes stay, every other byte becomes a percent escape.
\<close>

fun urlNormalizer :: "string \<Rightarrow> string" where
  "urlNormalizer [] = []"
| "urlNormalizer (c # cs) =
     (if urlKept c \<or> (c = CHR ''%'' \<and> (case cs of a # b # _ \<Rightarrow> isHex a \<and> isHex b | _ \<Rightarrow> False))
      then c # urlNormalizer cs
      else CHR ''%'' # hexDigit (of_char c div 16) # hexDigit (of_char c) # urlNormalizer cs)"

text \<open>A string inside the path of a quoted \<open>href\<close>: normalised, then attribute-escaped.\<close>

definition urlAttr :: "string \<Rightarrow> string" where
  "urlAttr s = htmlEscaper (urlNormalizer s)"

section \<open>The program: data\<close>

record Article =
  Header :: string
  Content :: string
  Tags :: "string list"
  Date :: Time
  Index :: int

text \<open>Go's zero value \<open>Article{}\<close>; a nil slice is the empty list.\<close>

definition zeroArticle :: Article where
  "zeroArticle = \<lparr>Header = [], Content = [], Tags = [], Date = zeroTime, Index = 0\<rparr>"

text \<open>The fields of \<open>pageArticle\<close> and \<open>renderArticle\<close>, prefixed to keep them apart.\<close>

record pageArticle =
  page_Content :: string
  page_StringDate :: string
  page_Tags :: "string list"

record renderArticle =
  render_Header :: string
  render_Link :: string

section \<open>The program: the note parser\<close>

text \<open>
  The loop of \<open>parseArticle\<close> over the body lines; the state is
  \<open>(dateLine, tagsLine, markDown)\<close>.
\<close>

fun scanBody :: "string list \<Rightarrow> string \<times> string \<times> string list \<Rightarrow> string \<times> string \<times> string list" where
  "scanBody [] st = st"
| "scanBody (line # rest) (dateLine, tagsLine, markDown) =
     (if HasPrefix line ''Date:'' then scanBody rest (line, tagsLine, markDown)
      else if HasPrefix line ''Tags:'' then scanBody rest (dateLine, line, markDown)
      else scanBody rest (dateLine, tagsLine, markDown @ [line]))"

text \<open>
  \<open>parseArticle\<close> returns the pair \<open>(Article, error)\<close> as Go does: the zero
  article beside an error. The markup converter \<open>md\<close> (an external library) is a
  parameter; it receives the heading and the remaining body lines joined by newlines.
\<close>

definition parseArticle :: "(string \<Rightarrow> string) \<Rightarrow> string \<Rightarrow> string list \<Rightarrow> Article \<times> error option" where
  "parseArticle md header lines =
     (let h = TrimSpace (TrimLeft header ''# '');
          (dateLine, tagsLine, markDown) = scanBody lines ([], [], [header]);
          dateLine = TrimSpace (TrimLeft dateLine ''Date:'')
      in case timeParse dateLine of
           (t, Some err) \<Rightarrow> (zeroArticle, Some err)
         | (t, None) \<Rightarrow>
             (\<lparr>Header = h,
               Content = md (Join markDown ''\<newline>''),
               Tags = map TrimSpace (Split (TrimLeft tagsLine ''Tags:'') CHR '',''),
               Date = t,
               Index = 0\<rparr>, None))"

text \<open>
  \<open>reverse\<close>: \<open>n\<close> starts as \<open>make([]Article, len(res))\<close>, that is \<open>len(res)\<close>
  zero articles, and the loop appends \<open>res[i]\<close> for \<open>i\<close> from \<open>len(res) - 1\<close> down
  to 0. The counter of \<open>reverseLoop\<close> is \<open>i + 1\<close>.
\<close>

fun reverseLoop :: "Article list \<Rightarrow> nat \<Rightarrow> Article list \<Rightarrow> Article list" where
  "reverseLoop res 0 n = n"
| "reverseLoop res (Suc i) n = reverseLoop res i (n @ [res ! i])"

definition reverse :: "Article list \<Rightarrow> Article list" where
  "reverse res = reverseLoop res (length res) (replicate (length res) zeroArticle)"

text \<open>
  The scanning loop of \<open>parseFile\<close> over the lines the scanner yields; the state is
  \<open>(last, lines, index, res)\<close>, with \<open>last\<close> written \<open>last'\<close>. An error of
  \<open>parseArticle\<close> ends the loop.
\<close>

fun scanLines :: "(string \<Rightarrow> string) \<Rightarrow> string list \<Rightarrow> string \<times> string list \<times> int \<times> Article list \<Rightarrow>
    error + (string \<times> string list \<times> int \<times> Article list)" where
  "scanLines md [] st = Inr st"
| "scanLines md (text # rest) (last', lines, index, res) =
     (if HasPrefix text ''# '' then
        (if last' \<noteq> [] then
           (case parseArticle md last' lines of
              (a, err) \<Rightarrow>
                (case err of
                   Some e \<Rightarrow> Inl e
                 | None \<Rightarrow> scanLines md rest (text, [], index + 1, res @ [a\<lparr>Index := index\<rparr>])))
         else scanLines md rest (text, lines, index, res))
      else scanLines md rest (last', lines @ [text], index, res))"

text \<open>What \<open>parseFile\<close> does after the loop.\<close>

definition finish :: "(string \<Rightarrow> string) \<Rightarrow> string \<times> string list \<times> int \<times> Article list \<Rightarrow> error + Article list" where
  "finish md st =
     (case st of (last', lines, index, res) \<Rightarrow>
        if last' \<noteq> [] then
          (case parseArticle md last' lines of
             (a, err) \<Rightarrow>
               (case err of
                  Some e \<Rightarrow> Inl e
                | None \<Rightarrow> Inr (reverse (res @ [a\<lparr>Index := index\<rparr>]))))
        else Inr (reverse res))"

text \<open>
  \<open>parseFile\<close>. Its argument is what the file at \<open>path\<close> gives: \<open>None\<close> when it
  cannot be opened (\<open>log.Fatal\<close> then ends the process), otherwise the lines that
  \<open>scanner.Text()\<close> yields one after the other. \<open>Inl e\<close> is Go's \<open>(nil, e)\<close>.
\<close>

definition parseFile :: "(string \<Rightarrow> string) \<Rightarrow> string list option \<Rightarrow> error + Article list" where
  "parseFile md file =
     (case file of
        None \<Rightarrow> Inl (Fatal ''open'')
      | Some ls \<Rightarrow>
          (case scanLines md ls ([], [], 1, []) of
             Inl e \<Rightarrow> Inl e
           | Inr st \<Rightarrow> finish md st))"

section \<open>The program: the page writer\<close>

subsection \<open>The three templates, executed\<close>

definition tab :: string where
  "tab = [CHR 0x09]"

definition homeHead :: string where
  "homeHead =
     ''\<newline><html>\<newline><head>\<newline>'' @ tab @
     ''<title>Sheki articles of interest</title>\<newline></head>\<newline><body>\<newline>'' @ tab @
     ''<h1>Articles of interest</h1>\<newline>'' @ tab"

definition homeItem :: "renderArticle \<Rightarrow> string" where
  \<open>homeItem r =
     ''\<newline>'' @ tab @ tab @ ''<p>\<newline>'' @ tab @ tab @ tab @
     ''<a href="'' @ render_Link r @ ''">'' @ htmlEscaper (render_Header r) @ ''</a>\<newline>'' @
     tab @ tab @ ''</p>\<newline>'' @ tab\<close>

definition homeFoot :: string where
  "homeFoot = ''\<newline></body>\<newline></html>''"

text \<open>
  \<open>homeTempl\<close> executed on the list. \<open>Link\<close> is always decimal digits followed by
  \<open>.html\<close>, which the URL escapers leave as they are.
\<close>

definition execHome :: "renderArticle list \<Rightarrow> string" where
  "execHome rs = homeHead @ concat (map homeItem rs) @ homeFoot"

definition pageTagItem :: "string \<Rightarrow> string" where
  \<open>pageTagItem t =
     ''\<newline>'' @ tab @ tab @ ''  <a href="tag/'' @ urlAttr t @ ''.html">'' @ htmlEscaper t @
     ''</a>\<newline>'' @ tab @ tab\<close>

text \<open>\<open>pageTempl\<close> executed; \<open>Content\<close> is a \<open>template.HTML\<close> and is not escaped.\<close>

definition execPage :: "pageArticle \<Rightarrow> string" where
  "execPage p =
     ''\<newline><html>\<newline>  <head>\<newline>'' @ tab @
     ''  <title>Sheki articles of interest</title>\<newline>'' @ tab @ ''</head>\<newline>'' @ tab @
     ''<body>\<newline>    <p>\<newline>'' @ tab @ ''  '' @ page_Content p @ ''\<newline>'' @ tab @ tab @
     ''</p>\<newline>'' @ tab @ tab @ ''<p>Date: '' @ htmlEscaper (page_StringDate p) @
     ''</p>\<newline>'' @ tab @ tab @ ''<p>\<newline>'' @ tab @ tab @
     concat (map pageTagItem (page_Tags p)) @
     ''\<newline>'' @ tab @ tab @ ''</p>\<newline>'' @ tab @ ''</body>\<newline></html>\<newline>''"

definition tagItem :: "Article \<Rightarrow> string" where
  \<open>tagItem a =
     ''\<newline>'' @ tab @ tab @ ''<p>\<newline>'' @ tab @ tab @ tab @
     ''<a href="/'' @ Sprintf_d (Index a) @ ''.html">'' @ htmlEscaper (Header a) @ ''</a>\<newline>'' @
     tab @ tab @ ''</p>\<newline>'' @ tab\<close>

text \<open>\<open>tagTempl\<close> executed on the anonymous struct \<open>{Articles, Tag}\<close>.\<close>

definition execTag :: "Article list \<Rightarrow> string \<Rightarrow> string" where
  "execTag articles tag =
     ''\<newline><html>\<newline><head>\<newline>'' @ tab @
     ''<title>Sheki articles of interest</title>\<newline></head>\<newline><body>\<newline><h1>Tag: '' @
     htmlEscaper tag @ ''</h1>\<newline>'' @ tab @
     concat (map tagItem articles) @
     ''\<newline></body>\<newline></html>''"

subsection \<open>The generators\<close>

text \<open>
  A generator takes the file system and returns Go's \<open>error\<close> (\<open>None\<close> is \<open>nil\<close>)
  beside the file system it leaves. Parsing one of the three constant templates never
  fails, and neither does executing it on the data the program passes.
\<close>

definition prepareForRender :: "Article list \<Rightarrow> renderArticle list" where
  "prepareForRender articles =
     map (\<lambda>v. \<lparr>render_Header = Header v, render_Link = Sprintf_d (Index v) @ ''.html''\<rparr>) articles"

definition indexFile :: "string \<Rightarrow> string" where
  "indexFile base = pathJoin [base, ''index.html'']"

definition articleFile :: "string \<Rightarrow> int \<Rightarrow> string" where
  "articleFile base index = pathJoin [base, Sprintf_d index @ ''.html'']"

definition generateArticlePage :: "string \<Rightarrow> Article \<Rightarrow> fs \<Rightarrow> error option \<times> fs" where
  "generateArticlePage base article s =
     (case OpenFile (articleFile base (Index article)) [O_RDWR, O_CREATE] s of
        Inl err \<Rightarrow> (Some err, s)
      | Inr s1 \<Rightarrow>
          (None, writeAtStart (articleFile base (Index article))
             (execPage \<lparr>page_Content = Content article,
                         page_StringDate = Format (Date article),
                         page_Tags = Tags article\<rparr>) s1))"

fun generateArticlePages :: "string \<Rightarrow> Article list \<Rightarrow> fs \<Rightarrow> error option \<times> fs" where
  "generateArticlePages base [] s = (None, s)"
| "generateArticlePages base (a # articles) s =
     (case generateArticlePage base a s of
        (Some err, s1) \<Rightarrow> (Some err, s1)
      | (None, s1) \<Rightarrow> generateArticlePages base articles s1)"

definition tagFile :: "string \<Rightarrow> string \<Rightarrow> string" where
  "tagFile base tag = pathJoin [base, ''tag'', tag @ ''.html'']"

definition generateTagFile :: "string \<Rightarrow> string \<Rightarrow> Article list \<Rightarrow> fs \<Rightarrow> error option \<times> fs" where
  "generateTagFile base tag articles s =
     (case OpenFile (tagFile base tag) [O_RDWR, O_CREATE] s of
        Inl err \<Rightarrow> (Some err, s)
      | Inr s1 \<Rightarrow> (None, writeAtStart (tagFile base tag) (execTag articles tag) s1))"

text \<open>
  \<open>tagMap[tag] = append(tagMap[tag], v)\<close>. The map is kept as a list of entries with
  distinct keys; the position of an entry means nothing.
\<close>

fun appendTo :: "(string \<times> Article list) list \<Rightarrow> string \<Rightarrow> Article \<Rightarrow> (string \<times> Article list) list" where
  "appendTo [] tag v = [(tag, [v])]"
| "appendTo ((k, vs) # m) tag v =
     (if k = tag then (k, vs @ [v]) # m else (k, vs) # appendTo m tag v)"

fun addTags :: "(string \<times> Article list) list \<Rightarrow> Article \<Rightarrow> string list \<Rightarrow> (string \<times> Article list) list" where
  "addTags m v [] = m"
| "addTags m v (tag # tags) = addTags (appendTo m tag v) v tags"

fun buildTagMap :: "(string \<times> Article list) list \<Rightarrow> Article list \<Rightarrow> (string \<times> Article list) list" where
  "buildTagMap m [] = m"
| "buildTagMap m (v # articles) = buildTagMap (addTags m v (Tags v)) articles"

text \<open>The loop \<open>for k, v := range tagMap\<close>, over the entries in the order visited.\<close>

fun rangeTagMap :: "string \<Rightarrow> (string \<times> Article list) list \<Rightarrow> fs \<Rightarrow> error option \<times> fs" where
  "rangeTagMap base [] s = (None, s)"
| "rangeTagMap base ((k, v) # m) s =
     (case generateTagFile base k v s of
        (Some err, s1) \<Rightarrow> (Some err, s1)
      | (None, s1) \<Rightarrow> rangeTagMap base m s1)"

text \<open>
  \<open>generateTags\<close>. Go leaves the order in which \<open>range\<close> visits a map unspecified:
  the parameter \<open>visit\<close> is that order, a rearrangement of the entries chosen by the
  runtime. \<open>os.Stat\<close> is \<open>exists\<close>. The handle on the index file is opened and
  closed, and nothing is written through it.
\<close>

definition generateTags :: "((string \<times> Article list) list \<Rightarrow> (string \<times> Article list) list) \<Rightarrow>
    string \<Rightarrow> Article list \<Rightarrow> fs \<Rightarrow> error option \<times> fs" where
  "generateTags visit base articles s =
     (let tagDir = pathJoin [base, ''tag''] in
      case (if \<not> exists tagDir s then Mkdir tagDir s else Inr s) of
        Inl mkdirErr \<Rightarrow> (Some mkdirErr, s)
      | Inr s1 \<Rightarrow>
          (let tagMap = buildTagMap [] articles in
           case OpenFile (indexFile base) [O_RDWR, O_CREATE] s1 of
             Inl err \<Rightarrow> (Some err, s1)
           | Inr s2 \<Rightarrow> rangeTagMap base (visit tagMap) s2))"

definition generateIndex :: "string \<Rightarrow> Article list \<Rightarrow> fs \<Rightarrow> error option \<times> fs" where
  "generateIndex base articles s =
     (case OpenFile (indexFile base) [O_RDWR, O_CREATE] s of
        Inl err \<Rightarrow> (Some err, s)
      | Inr s1 \<Rightarrow> (None, writeAtStart (indexFile base) (execHome (prepareForRender articles)) s1))"

text \<open>
  \<open>Generate\<close>. Beside the base directory it takes what the notes file gives (see
  \<open>parseFile\<close>), the markup converter and the visiting order of the tag map.
\<close>

definition Generate :: "(string \<Rightarrow> string) \<Rightarrow> ((string \<times> Article list) list \<Rightarrow> (string \<times> Article list) list) \<Rightarrow>
    string list option \<Rightarrow> string \<Rightarrow> fs \<Rightarrow> error option \<times> fs" where
  "Generate md visit notes baseDir s =
     (case parseFile md notes of
        Inl err \<Rightarrow> (Some err, s)
      | Inr arr \<Rightarrow>
          (case generateIndex baseDir arr s of
             (Some err, s1) \<Rightarrow> (Some err, s1)
           | (None, s1) \<Rightarrow>
               (case generateArticlePages baseDir arr s1 of
                  (Some err, s2) \<Rightarrow> (Some err, s2)
                | (None, s2) \<Rightarrow> generateTags visit baseDir arr s2)))"

section \<open>Notions the statements use\<close>

text \<open>
  The records as \<open>parseFile\<close> forms them: the pairs \<open>(last, lines)\<close> it hands to
  \<open>parseArticle\<close>, in file order. \<open>finalized\<close> follows the scanning loop and the
  step after it, keeping the pair where the program parses it.
\<close>

fun finalized :: "string list \<Rightarrow> string \<Rightarrow> string list \<Rightarrow> (string \<times> string list) list" where
  "finalized [] last' lines = (if last' \<noteq> [] then [(last', lines)] else [])"
| "finalized (text # rest) last' lines =
     (if HasPrefix text ''# '' then
        (if last' \<noteq> [] then (last', lines) # finalized rest text []
         else finalized rest text lines)
      else finalized rest last' (lines @ [text]))"

definition records :: "string list \<Rightarrow> (string \<times> string list) list" where
  "records ls = finalized ls [] []"

text \<open>
  The records as the specification words them: a heading line with the lines that
  follow it up to the next heading line or the end of the file.
\<close>

fun specRecords :: "string list \<Rightarrow> (string \<times> string list) list" where
  "specRecords [] = []"
| "specRecords (l # ls) =
     (if HasPrefix l ''# '' then (l, takeWhile (\<lambda>x. \<not> HasPrefix x ''# '') ls) # specRecords ls
      else specRecords ls)"

text \<open>The last line with a given prefix; empty when there is none.\<close>

definition lastWithPrefix :: "string \<Rightarrow> string list \<Rightarrow> string" where
  "lastWithPrefix p ls = (case rev (filter (\<lambda>l. HasPrefix l p) ls) of [] \<Rightarrow> [] | l # _ \<Rightarrow> l)"

text \<open>
  The argument \<open>parseArticle\<close> gives to \<open>time.Parse\<close> for a record body:
  \<open>strings.TrimSpace(strings.TrimLeft(dateLine, "Date:"))\<close>, where \<open>dateLine\<close> is the
  last line with the prefix.
\<close>

definition dateArg :: "string list \<Rightarrow> string" where
  "dateArg body = TrimSpace (TrimLeft (lastWithPrefix ''Date:'' body) ''Date:'')"

text \<open>
  The date text of a record body as the specification words it: the five characters
  \<open>Date:\<close> taken off the front of the line, the rest trimmed.
\<close>

definition specDateText :: "string list \<Rightarrow> string" where
  "specDateText body = TrimSpace (drop 5 (lastWithPrefix ''Date:'' body))"

text \<open>
  In \<open>line\<close> the prefix \<open>p\<close> is followed by nothing, or by a character that does not
  occur in \<open>p\<close>.
\<close>

definition prefixOnly :: "string \<Rightarrow> string \<Rightarrow> bool" where
  "prefixOnly p line = (case drop (length p) line of [] \<Rightarrow> True | c # _ \<Rightarrow> c \<notin> set p)"

text \<open>
  The tag list as the specification words it: the five characters \<open>Tags:\<close> taken off
  the front of the line, the rest split on commas, each piece trimmed.
\<close>

definition specTags :: "string \<Rightarrow> string list" where
  "specTags line = map TrimSpace (Split (drop 5 line) CHR '','')"

text \<open>Parsing the records one after the other, numbering them from \<open>index\<close>.\<close>

fun parseAll :: "(string \<Rightarrow> string) \<Rightarrow> int \<Rightarrow> (string \<times> string list) list \<Rightarrow> error + Article list" where
  "parseAll md index [] = Inr []"
| "parseAll md index ((h, b) # rs) =
     (case parseArticle md h b of
        (a, Some e) \<Rightarrow> Inl e
      | (a, None) \<Rightarrow>
          (case parseAll md (index + 1) rs of
             Inl e \<Rightarrow> Inl e
           | Inr as \<Rightarrow> Inr (a\<lparr>Index := index\<rparr> # as)))"

text \<open>A file can be opened for writing with \<open>O_CREATE\<close>.\<close>

definition canOpen :: "string \<Rightarrow> fs \<Rightarrow> bool" where
  "canOpen p s = (p \<notin> dirs s \<and> (parentDir p \<in> dirs s \<or> files s p \<noteq> None))"

text \<open>The path \<open>p\<close> lies under the directory \<open>dir\<close>.\<close>

definition isUnder :: "string \<Rightarrow> string \<Rightarrow> bool" where
  "isUnder dir p = (HasPrefix p (dir @ ''/'') \<and> length (dir @ ''/'') < length p)"

text \<open>The tags that occur in a list of articles.\<close>

definition tagsOf :: "Article list \<Rightarrow> string set" where
  "tagsOf articles = (\<Union>a \<in> set articles. set (Tags a))"

text \<open>A visiting order of a map: it rearranges the entries and does nothing else.\<close>

definition isOrder :: "((string \<times> Article list) list \<Rightarrow> (string \<times> Article list) list) \<Rightarrow> bool" where
  "isOrder visit = (\<forall>m. mset (visit m) = mset m)"

text \<open>The tag pages of a map, each beside the path it is written to.\<close>

definition tagPages :: "string \<Rightarrow> (string \<times> Article list) list \<Rightarrow> (string \<times> string) list" where
  "tagPages base m = map (\<lambda>(k, v). (tagFile base k, execTag v k)) m"

text \<open>
  A write: a path and the bytes a generator writes there. \<open>applyOp\<close> is what opening
  the path without truncation and writing the bytes does to the file system;
  \<open>runOps\<close> does one write after the other and stops at the first path that cannot
  be opened.
\<close>

definition applyOp :: "string \<times> string \<Rightarrow> fs \<Rightarrow> fs" where
  "applyOp w s = s\<lparr>files := (files s)(fst w \<mapsto> writeOver (contentOf s (fst w)) (snd w))\<rparr>"

fun runOps :: "(string \<times> string) list \<Rightarrow> fs \<Rightarrow> error option \<times> fs" where
  "runOps [] s = (None, s)"
| "runOps (w # ws) s =
     (if canOpen (fst w) s then runOps ws (applyOp w s)
      else (Some (PathError ''open'' (fst w)), s))"

text \<open>The writes of \<open>generateArticlePages\<close>.\<close>

definition articleOps :: "string \<Rightarrow> Article list \<Rightarrow> (string \<times> string) list" where
  "articleOps base articles =
     map (\<lambda>a. (articleFile base (Index a),
               execPage \<lparr>page_Content = Content a, page_StringDate = Format (Date a),
                          page_Tags = Tags a\<rparr>)) articles"

text \<open>
  The writes of a run of \<open>Generate\<close> that succeeds, in the order they are made, and
  what the writes to one path leave in a file that was empty.
\<close>

definition writes :: "((string \<times> Article list) list \<Rightarrow> (string \<times> Article list) list) \<Rightarrow>
    string \<Rightarrow> Article list \<Rightarrow> (string \<times> string) list" where
  "writes visit base arr =
     (indexFile base, execHome (prepareForRender arr)) # articleOps base arr @
     tagPages base (visit (buildTagMap [] arr))"

definition written :: "(string \<times> string) list \<Rightarrow> string \<Rightarrow> string" where
  "written ws p = foldl writeOver [] (map snd (filter (\<lambda>w. fst w = p) ws))"

text \<open>
  A converter that returns its input, for the evaluations that need some converter in
  the place of the external library.
\<close>

definition plainText :: "string \<Rightarrow> string" where
  "plainText src = src"

text \<open>An output directory \<open>docs\<close> that exists and is empty.\<close>

definition emptyDocs :: fs where
  "emptyDocs = \<lparr>dirs = {''docs''}, files = Map.empty\<rparr>"

text \<open>An article, and an output directory whose files end with five stale bytes.\<close>

definition articleA :: Article where
  "articleA = \<lparr>Header = ''A'', Content = ''<h1>A</h1>'', Tags = [''go''],
                Date = \<lparr>year = 2015, month = 3, day = 2\<rparr>, Index = 1\<rparr>"

definition staleDocs :: fs where
  "staleDocs =
     \<lparr>dirs = {''docs'', ''docs/tag''},
      files = [''docs/index.html'' \<mapsto> execHome (prepareForRender [articleA]) @ ''STALE'',
               ''docs/1.html'' \<mapsto>
                 execPage \<lparr>page_Content = Content articleA, page_StringDate = Format (Date articleA),
                            page_Tags = Tags articleA\<rparr> @ ''STALE'',
               ''docs/tag/go.html'' \<mapsto> execTag [articleA] ''go'' @ ''STALE'']\<rparr>"

text \<open>An output directory that holds an index page with an empty listing.\<close>

definition homeOnly :: fs where
  "homeOnly = \<lparr>dirs = {''docs''}, files = [''docs/index.html'' \<mapsto> homeHead @ homeFoot]\<rparr>"

text \<open>An output directory whose index page ends with five stale bytes.\<close>

definition staleHome :: fs where
  "staleHome = \<lparr>dirs = {''docs''}, files = [''docs/index.html'' \<mapsto> homeHead @ homeFoot @ ''STALE'']\<rparr>"

section \<open>Facts about the parser\<close>

lemma reverseLoop_eq: "k \<le> length res \<Longrightarrow> reverseLoop res k n = n @ rev (take k res)"
proof (induction k arbitrary: n)
  case 0
  then show ?case by simp
next
  case (Suc k)
  then show ?case by (simp add: take_Suc_conv_app_nth)
qed

lemma reverse_eq: "reverse res = replicate (length res) zeroArticle @ rev res"
  by (simp add: reverse_def reverseLoop_eq)

lemma scan_finish:
  "(case scanLines md ls (l, lines, i, res) of Inl e \<Rightarrow> Inl e | Inr st \<Rightarrow> finish md st) =
   (case parseAll md i (finalized ls l lines) of
      Inl e \<Rightarrow> Inl e
    | Inr as \<Rightarrow> Inr (reverse (res @ as)))"
proof (induction ls arbitrary: l lines i res)
  case Nil
  then show ?case
    by (simp add: finish_def split: prod.splits option.splits sum.splits)
next
  case (Cons t ls)
  show ?case
  proof (cases "HasPrefix t ''# ''")
    case False
    then show ?thesis using Cons.IH by simp
  next
    case True
    show ?thesis
    proof (cases "l = []")
      case True
      then show ?thesis using \<open>HasPrefix t ''# ''\<close> Cons.IH by simp
    next
      case False
      obtain a err where pa: "parseArticle md l lines = (a, err)" by (cases "parseArticle md l lines")
      show ?thesis
      proof (cases err)
        case None
        then show ?thesis
          using \<open>HasPrefix t ''# ''\<close> False pa Cons.IH [of t "[]" "i + 1" "res @ [a\<lparr>Index := i\<rparr>]"]
          by (simp split: sum.splits)
      next
        case (Some e)
        then show ?thesis using \<open>HasPrefix t ''# ''\<close> False pa by simp
      qed
    qed
  qed
qed

lemma parseFile_records:
  "parseFile md (Some ls) =
   (case parseAll md 1 (records ls) of Inl e \<Rightarrow> Inl e | Inr as \<Rightarrow> Inr (reverse as))"
  using scan_finish [of md ls "[]" "[]" 1 "[]"]
  by (simp add: parseFile_def records_def split: sum.splits)


lemma scanBody_fst:
  "fst (scanBody ls (d, t, m)) =
   (case rev (filter (\<lambda>l. HasPrefix l ''Date:'') ls) of [] \<Rightarrow> d | l # _ \<Rightarrow> l)"
proof (induction ls arbitrary: d t m)
  case Nil
  then show ?case by simp
next
  case (Cons x ls)
  then show ?case by (simp split: list.splits)
qed

lemma Tags_not_Date: "HasPrefix l ''Tags:'' \<Longrightarrow> \<not> HasPrefix l ''Date:''"
  by (cases l) (auto simp: HasPrefix_def)

lemma scanBody_snd:
  "fst (snd (scanBody ls (d, t, m))) =
   (case rev (filter (\<lambda>l. HasPrefix l ''Tags:'') ls) of [] \<Rightarrow> t | l # _ \<Rightarrow> l)"
proof (induction ls arbitrary: d t m)
  case Nil
  then show ?case by simp
next
  case (Cons x ls)
  then show ?case by (auto split: list.splits dest: Tags_not_Date)
qed

lemma parseArticle_error:
  "snd (parseArticle md h b) = snd (timeParse (dateArg b))"
proof -
  obtain d t m where sb: "scanBody b ([], [], [h]) = (d, t, m)"
    by (cases "scanBody b ([], [], [h])") auto
  have "d = lastWithPrefix ''Date:'' b"
    using scanBody_fst [of b "[]" "[]" "[h]"] sb by (simp add: lastWithPrefix_def)
  then show ?thesis
    by (simp add: parseArticle_def sb dateArg_def split: prod.splits option.splits)
qed

lemma parseArticle_Tags:
  "snd (parseArticle md h b) = None \<Longrightarrow>
   Tags (fst (parseArticle md h b)) =
   map TrimSpace (Split (TrimLeft (lastWithPrefix ''Tags:'' b) ''Tags:'') CHR '','')"
proof -
  assume ok: "snd (parseArticle md h b) = None"
  obtain d t m where sb: "scanBody b ([], [], [h]) = (d, t, m)"
    by (cases "scanBody b ([], [], [h])") auto
  have "t = lastWithPrefix ''Tags:'' b"
    using scanBody_snd [of b "[]" "[]" "[h]"] sb by (simp add: lastWithPrefix_def)
  then show ?thesis
    using ok by (simp add: parseArticle_def sb split: prod.splits option.splits)
qed

lemma parseAll_error_iff:
  "isl (parseAll md i rs) \<longleftrightarrow> (\<exists>(h, b) \<in> set rs. snd (parseArticle md h b) \<noteq> None)"
proof (induction rs arbitrary: i)
  case Nil
  then show ?case by simp
next
  case (Cons r rs)
  obtain h b where r: "r = (h, b)" by (cases r)
  obtain a err where pa: "parseArticle md h b = (a, err)" by (cases "parseArticle md h b")
  show ?case
    using Cons.IH [of "i + 1"] by (cases err) (auto simp: r pa split: sum.splits)
qed

lemma parseFile_error_iff:
  "isl (parseFile md (Some ls)) \<longleftrightarrow>
   (\<exists>(h, b) \<in> set (records ls). snd (timeParse (dateArg b)) \<noteq> None)"
proof -
  have "isl (parseFile md (Some ls)) = isl (parseAll md 1 (records ls))"
    by (simp add: parseFile_records split: sum.splits)
  then show ?thesis
    by (simp add: parseAll_error_iff parseArticle_error)
qed

lemma timeParse_empty: "snd (timeParse []) \<noteq> None"
  by (simp add: timeParse_def)

lemma TrimSpace_Nil: "TrimSpace [] = []"
  by (simp add: TrimSpace_def)

lemma heading_nonempty: "HasPrefix t ''# '' \<Longrightarrow> t \<noteq> []"
  by (auto simp: HasPrefix_def)

lemma finalized_spec:
  "finalized ls l lines =
   (if l \<noteq> [] then (l, lines @ takeWhile (\<lambda>x. \<not> HasPrefix x ''# '') ls) # specRecords ls
    else (case specRecords ls of
            [] \<Rightarrow> []
          | (h, b) # rs \<Rightarrow> (h, lines @ takeWhile (\<lambda>x. \<not> HasPrefix x ''# '') ls @ b) # rs))"
proof (induction ls arbitrary: l lines)
  case Nil
  then show ?case by simp
next
  case (Cons t ls)
  then show ?case by (auto simp: heading_nonempty split: list.splits)
qed

lemma records_spec:
  "records ls =
   (case specRecords ls of
      [] \<Rightarrow> []
    | (h, b) # rs \<Rightarrow> (h, takeWhile (\<lambda>x. \<not> HasPrefix x ''# '') ls @ b) # rs)"
  by (simp add: records_def finalized_spec split: list.splits)

lemma specRecords_headings: "map fst (specRecords ls) = filter (\<lambda>l. HasPrefix l ''# '') ls"
  by (induction ls) auto

lemma no_heading_records: "\<forall>l\<in>set ls. \<not> HasPrefix l ''# '' \<Longrightarrow> records ls = []"
proof -
  assume "\<forall>l\<in>set ls. \<not> HasPrefix l ''# ''"
  then have "specRecords ls = []" by (induction ls) auto
  then show ?thesis by (simp add: records_spec)
qed


lemma parseAll_Index:
  "parseAll md i rs = Inr as \<Longrightarrow> map Index as = map (\<lambda>k. i + int k) [0..<length rs]"
proof (induction rs arbitrary: i as)
  case Nil
  then show ?case by simp
next
  case (Cons r rs)
  obtain h b where r: "r = (h, b)" by (cases r)
  obtain a err where pa: "parseArticle md h b = (a, err)" by (cases "parseArticle md h b")
  from Cons.prems obtain as' where
    rest: "parseAll md (i + 1) rs = Inr as'" and as: "as = a\<lparr>Index := i\<rparr> # as'"
    by (cases err; cases "parseAll md (i + 1) rs") (auto simp: r pa)
  have "map Index as' = map (\<lambda>k. (i + 1) + int k) [0..<length rs]"
    by (rule Cons.IH [OF rest])
  also have "\<dots> = map (\<lambda>k. i + int k) [1..<Suc (length rs)]"
    by (simp add: map_Suc_upt [symmetric] del: upt_Suc)
  finally show ?case
    by (simp add: as upt_conv_Cons del: upt_Suc)
qed

lemma length_records: "length (records ls) = length (filter (\<lambda>l. HasPrefix l ''# '') ls)"
proof -
  have "length (records ls) = length (specRecords ls)"
    by (simp add: records_spec split: list.splits prod.splits)
  also have "\<dots> = length (map fst (specRecords ls))" by simp
  finally show ?thesis by (simp only: specRecords_headings)
qed

lemma TrimLeft_Tags_space: "HasPrefix line ''Tags: '' \<Longrightarrow> TrimLeft line ''Tags:'' = drop 5 line"
proof -
  assume "HasPrefix line ''Tags: ''"
  then obtain rest where "line = ''Tags: '' @ rest"
    by (metis HasPrefix_def append_take_drop_id)
  then show ?thesis by (simp add: TrimLeft_def)
qed

lemma parseFile_Index:
  assumes "parseFile md (Some ls) = Inr arr"
  shows "map Index arr =
         replicate (length (filter (\<lambda>l. HasPrefix l ''# '') ls)) 0 @
         rev (map int [1..<Suc (length (filter (\<lambda>l. HasPrefix l ''# '') ls))])"
proof -
  from assms obtain as where
    pa: "parseAll md 1 (records ls) = Inr as" and arr: "arr = reverse as"
    by (cases "parseAll md 1 (records ls)") (auto simp: parseFile_records)
  have ix: "map Index as = map (\<lambda>k. 1 + int k) [0..<length (records ls)]"
    by (rule parseAll_Index [OF pa])
  have "length (map Index as) = length (map (\<lambda>k. 1 + int k) [0..<length (records ls)])"
    by (simp only: ix)
  then have len: "length as = length (records ls)" by simp
  have "map (\<lambda>k. 1 + int k) [0..<length (records ls)] = map int [1..<Suc (length (records ls))]"
    by (simp add: map_Suc_upt [symmetric] del: upt_Suc)
  then have ix': "map Index as = map int [1..<Suc (length (records ls))]"
    using ix by simp
  have "map Index arr = replicate (length as) (Index zeroArticle) @ rev (map Index as)"
    by (simp add: arr reverse_eq rev_map)
  then show ?thesis
    by (simp only: ix' len length_records) (simp add: zeroArticle_def del: upt_Suc)
qed

text \<open>Where removing the prefix and removing the characters of the cutset agree.\<close>

lemma lastWithPrefix_cases: "lastWithPrefix p ls = [] \<or> HasPrefix (lastWithPrefix p ls) p"
proof (cases "rev (filter (\<lambda>l. HasPrefix l p) ls)")
  case Nil
  then show ?thesis by (simp add: lastWithPrefix_def)
next
  case (Cons l rest)
  then have "l \<in> set (filter (\<lambda>l. HasPrefix l p) ls)"
    by (metis list.set_intros(1) set_rev)
  then show ?thesis using Cons by (simp add: lastWithPrefix_def)
qed

lemma TrimLeft_prefixOnly:
  assumes "l = [] \<or> HasPrefix l p" and "prefixOnly p l"
  shows "TrimLeft l p = drop (length p) l"
proof (cases "l = []")
  case True
  then show ?thesis by (simp add: TrimLeft_def)
next
  case False
  then have "HasPrefix l p" using assms(1) by simp
  then obtain rest where l: "l = p @ rest"
    by (metis HasPrefix_def append_take_drop_id)
  have "dropWhile (\<lambda>c. c \<in> set p) (p @ rest) = dropWhile (\<lambda>c. c \<in> set p) rest"
    by (rule dropWhile_append2) simp
  moreover have "dropWhile (\<lambda>c. c \<in> set p) rest = rest"
    using assms(2) by (cases rest) (simp_all add: prefixOnly_def l)
  ultimately show ?thesis by (simp add: TrimLeft_def l)
qed

lemma dateArg_spec:
  "prefixOnly ''Date:'' (lastWithPrefix ''Date:'' b) \<Longrightarrow> dateArg b = specDateText b"
proof -
  assume a: "prefixOnly ''Date:'' (lastWithPrefix ''Date:'' b)"
  have "TrimLeft (lastWithPrefix ''Date:'' b) ''Date:'' =
        drop (length ''Date:'') (lastWithPrefix ''Date:'' b)"
    using lastWithPrefix_cases a by (rule TrimLeft_prefixOnly)
  moreover have "length ''Date:'' = 5" by simp
  ultimately show ?thesis by (simp only: dateArg_def specDateText_def)
qed

section \<open>Facts about the page writer\<close>

lemma OpenFile_create:
  "OpenFile p [O_RDWR, O_CREATE] s =
   (if canOpen p s then Inr (s\<lparr>files := (files s)(p \<mapsto> contentOf s p)\<rparr>)
    else Inl (PathError ''open'' p))"
  by (auto simp: OpenFile_def canOpen_def contentOf_def map_upd_triv split: option.splits)

lemma write_after_open:
  "writeAtStart p new (s\<lparr>files := (files s)(p \<mapsto> contentOf s p)\<rparr>) =
   s\<lparr>files := (files s)(p \<mapsto> writeOver (contentOf s p) new)\<rparr>"
  by (simp add: writeAtStart_def contentOf_def)

lemma generateIndex_eq:
  "generateIndex base articles s =
   (if canOpen (indexFile base) s
    then (None, s\<lparr>files := (files s)(indexFile base \<mapsto>
            writeOver (contentOf s (indexFile base)) (execHome (prepareForRender articles)))\<rparr>)
    else (Some (PathError ''open'' (indexFile base)), s))"
  by (simp add: generateIndex_def OpenFile_create write_after_open)

lemma generateArticlePage_eq:
  "generateArticlePage base a s =
   (if canOpen (articleFile base (Index a)) s
    then (None, s\<lparr>files := (files s)(articleFile base (Index a) \<mapsto>
            writeOver (contentOf s (articleFile base (Index a)))
              (execPage \<lparr>page_Content = Content a, page_StringDate = Format (Date a),
                          page_Tags = Tags a\<rparr>))\<rparr>)
    else (Some (PathError ''open'' (articleFile base (Index a))), s))"
  by (simp add: generateArticlePage_def OpenFile_create write_after_open)

lemma generateTagFile_eq:
  "generateTagFile base k v s =
   (if canOpen (tagFile base k) s
    then (None, s\<lparr>files := (files s)(tagFile base k \<mapsto>
            writeOver (contentOf s (tagFile base k)) (execTag v k))\<rparr>)
    else (Some (PathError ''open'' (tagFile base k)), s))"
  by (simp add: generateTagFile_def OpenFile_create write_after_open)

lemma canOpen_after_write:
  "canOpen p s \<Longrightarrow> canOpen q (s\<lparr>files := (files s)(p \<mapsto> c)\<rparr>) = canOpen q s"
  by (auto simp: canOpen_def)

lemma rangeTagMap_dirs: "dirs (snd (rangeTagMap base m s)) = dirs s"
proof (induction m arbitrary: s)
  case Nil
  then show ?case by simp
next
  case (Cons e m)
  obtain k v where e: "e = (k, v)" by (cases e)
  show ?case using Cons.IH by (simp add: e generateTagFile_eq)
qed

lemma rangeTagMap_success:
  "fst (rangeTagMap base m s) = None \<longleftrightarrow> (\<forall>e\<in>set m. canOpen (tagFile base (fst e)) s)"
proof (induction m arbitrary: s)
  case Nil
  then show ?case by simp
next
  case (Cons e m)
  obtain k v where e: "e = (k, v)" by (cases e)
  show ?case using Cons.IH by (auto simp: e generateTagFile_eq canOpen_after_write)
qed

lemma rangeTagMap_frame:
  "p \<notin> (\<lambda>e. tagFile base (fst e)) ` set m \<Longrightarrow> files (snd (rangeTagMap base m s)) p = files s p"
proof (induction m arbitrary: s)
  case Nil
  then show ?case by simp
next
  case (Cons e m)
  obtain k v where e: "e = (k, v)" by (cases e)
  show ?case using Cons.prems Cons.IH by (auto simp: e generateTagFile_eq)
qed

lemma contentOf_upd:
  "contentOf (s\<lparr>files := (files s)(p \<mapsto> c)\<rparr>) q = (if q = p then c else contentOf s q)"
  by (simp add: contentOf_def)

lemma tagPages_paths: "map fst (tagPages base m) = map (\<lambda>e. tagFile base (fst e)) m"
  by (simp add: tagPages_def case_prod_beta)

lemma tagPages_Cons: "tagPages base ((k, v) # m) = (tagFile base k, execTag v k) # tagPages base m"
  by (simp add: tagPages_def)

lemma rangeTagMap_files:
  "distinct (map fst (tagPages base m)) \<Longrightarrow> fst (rangeTagMap base m s) = None \<Longrightarrow>
   files (snd (rangeTagMap base m s)) p =
   (case map_of (tagPages base m) p of
      None \<Rightarrow> files s p
    | Some new \<Rightarrow> Some (writeOver (contentOf s p) new))"
proof (induction m arbitrary: s)
  case Nil
  then show ?case by (simp add: tagPages_def)
next
  case (Cons e m)
  obtain k v where e: "e = (k, v)" by (cases e)
  let ?s1 = "s\<lparr>files := (files s)(tagFile base k \<mapsto> writeOver (contentOf s (tagFile base k)) (execTag v k))\<rparr>"
  from Cons.prems(2) have co: "canOpen (tagFile base k) s"
    by (simp add: e generateTagFile_eq split: if_splits)
  then have step: "rangeTagMap base ((k, v) # m) s = rangeTagMap base m ?s1"
    by (simp add: generateTagFile_eq)
  have d: "distinct (map fst (tagPages base m))" and notin: "tagFile base k \<notin> fst ` set (tagPages base m)"
    using Cons.prems(1) by (simp_all add: e tagPages_Cons)
  have ok: "fst (rangeTagMap base m ?s1) = None"
    using Cons.prems(2) step by (simp add: e del: rangeTagMap.simps)
  have ih: "files (snd (rangeTagMap base m ?s1)) p =
      (case map_of (tagPages base m) p of None \<Rightarrow> files ?s1 p
       | Some new \<Rightarrow> Some (writeOver (contentOf ?s1 p) new))"
    by (rule Cons.IH [OF d ok])
  show ?case
  proof (cases "p = tagFile base k")
    case True
    then have "map_of (tagPages base m) p = None" using notin by (simp add: map_of_eq_None_iff)
    then show ?thesis
      using ih True by (simp add: step e tagPages_Cons contentOf_upd del: rangeTagMap.simps)
  next
    case False
    then show ?thesis
      using ih
      by (simp add: step e tagPages_Cons contentOf_upd del: rangeTagMap.simps split: option.splits)
  qed
qed

lemma tagPages_perm:
  assumes "mset m1 = mset m2" and "distinct (map fst (tagPages base m1))"
  shows "map_of (tagPages base m1) = map_of (tagPages base m2)"
proof -
  have ms: "mset (tagPages base m1) = mset (tagPages base m2)"
    using assms(1) by (simp add: tagPages_def)
  then have "mset (map fst (tagPages base m1)) = mset (map fst (tagPages base m2))"
    by simp
  then have d2: "distinct (map fst (tagPages base m2))"
    using assms(2) by (metis mset_eq_imp_distinct_iff)
  have "set (tagPages base m1) = set (tagPages base m2)" using ms by (rule mset_eq_setD)
  then show ?thesis using assms(2) d2 by (simp add: map_of_inject_set)
qed

lemma rangeTagMap_perm:
  assumes "mset m1 = mset m2" and "distinct (map fst (tagPages base m1))"
    and "fst (rangeTagMap base m1 s) = None"
  shows "rangeTagMap base m2 s = rangeTagMap base m1 s"
proof -
  have s12: "set m1 = set m2" using assms(1) by (rule mset_eq_setD)
  have ok2: "fst (rangeTagMap base m2 s) = None"
    using assms(3) s12 by (simp add: rangeTagMap_success)
  have "mset (map fst (tagPages base m1)) = mset (map fst (tagPages base m2))"
    using assms(1) by (simp add: tagPages_paths)
  then have d2: "distinct (map fst (tagPages base m2))"
    using assms(2) by (metis mset_eq_imp_distinct_iff)
  have "files (snd (rangeTagMap base m2 s)) = files (snd (rangeTagMap base m1 s))"
  proof
    fix p
    show "files (snd (rangeTagMap base m2 s)) p = files (snd (rangeTagMap base m1 s)) p"
      using rangeTagMap_files [OF assms(2) assms(3), of p] rangeTagMap_files [OF d2 ok2, of p]
        tagPages_perm [OF assms(1) assms(2)]
      by simp
  qed
  moreover have "dirs (snd (rangeTagMap base m2 s)) = dirs (snd (rangeTagMap base m1 s))"
    by (simp add: rangeTagMap_dirs)
  ultimately have "snd (rangeTagMap base m2 s) = snd (rangeTagMap base m1 s)"
    by simp
  then show ?thesis using ok2 assms(3) by (simp add: prod_eq_iff)
qed


subsection \<open>The tag map and the order it is visited in\<close>

lemma appendTo_keys: "fst ` set (appendTo m tag v) = insert tag (fst ` set m)"
proof (induction m)
  case Nil
  then show ?case by simp
next
  case (Cons e m)
  obtain k vs where e: "e = (k, vs)" by (cases e)
  show ?case using Cons.IH by (cases "k = tag") (simp_all add: e insert_commute)
qed

lemma appendTo_distinct: "distinct (map fst m) \<Longrightarrow> distinct (map fst (appendTo m tag v))"
proof (induction m)
  case Nil
  then show ?case by simp
next
  case (Cons e m)
  obtain k vs where e: "e = (k, vs)" by (cases e)
  show ?case
  proof (cases "k = tag")
    case True
    then show ?thesis using Cons.prems by (simp add: e)
  next
    case False
    have "k \<notin> fst ` set (appendTo m tag v)"
      using Cons.prems False by (simp add: appendTo_keys e)
    then show ?thesis using Cons False by (simp add: e)
  qed
qed

lemma addTags_keys:
  "distinct (map fst m) \<Longrightarrow>
   distinct (map fst (addTags m v tags)) \<and> fst ` set (addTags m v tags) = fst ` set m \<union> set tags"
proof (induction tags arbitrary: m)
  case Nil
  then show ?case by simp
next
  case (Cons t tags)
  have d: "distinct (map fst (appendTo m t v))" using Cons.prems by (rule appendTo_distinct)
  show ?case using Cons.IH [OF d] by (simp add: appendTo_keys)
qed

lemma buildTagMap_keys:
  "distinct (map fst m) \<Longrightarrow>
   distinct (map fst (buildTagMap m articles)) \<and>
   fst ` set (buildTagMap m articles) = fst ` set m \<union> tagsOf articles"
proof (induction articles arbitrary: m)
  case Nil
  then show ?case by (simp add: tagsOf_def)
next
  case (Cons a articles)
  from addTags_keys [OF Cons.prems, of a "Tags a"]
  have d: "distinct (map fst (addTags m a (Tags a)))"
    and k: "fst ` set (addTags m a (Tags a)) = fst ` set m \<union> set (Tags a)" by simp_all
  show ?case using Cons.IH [OF d] k by (auto simp: tagsOf_def)
qed

lemma tagMap_keys:
  "distinct (map fst (buildTagMap [] articles))"
  "fst ` set (buildTagMap [] articles) = tagsOf articles"
  using buildTagMap_keys [of "[]" articles] by simp_all

lemma tagMap_paths_distinct:
  assumes "inj_on (tagFile base) (tagsOf articles)"
  shows "distinct (map fst (tagPages base (buildTagMap [] articles)))"
proof -
  let ?ks = "map fst (buildTagMap [] articles)"
  have eq: "map fst (tagPages base (buildTagMap [] articles)) = map (tagFile base) ?ks"
    by (simp add: tagPages_paths)
  have "set ?ks = tagsOf articles" using tagMap_keys(2) [of articles] by simp
  then have "inj_on (tagFile base) (set ?ks)" using assms by simp
  then have "distinct (map (tagFile base) ?ks)"
    using tagMap_keys(1) [of articles] by (simp only: distinct_map)
  then show ?thesis by (simp only: eq)
qed

lemma generateTags_perm:
  assumes v1: "isOrder visit1" and v2: "isOrder visit2"
    and inj: "inj_on (tagFile base) (tagsOf articles)"
    and ok: "fst (generateTags visit1 base articles s) = None"
  shows "generateTags visit2 base articles s = generateTags visit1 base articles s"
proof -
  let ?m = "buildTagMap [] articles"
  have m12: "mset (visit1 ?m) = mset (visit2 ?m)" using v1 v2 by (simp add: isOrder_def)
  have "mset (map fst (tagPages base (visit1 ?m))) = mset (map fst (tagPages base ?m))"
    using v1 by (simp add: isOrder_def tagPages_paths)
  then have d1: "distinct (map fst (tagPages base (visit1 ?m)))"
    using tagMap_paths_distinct [OF inj] by (metis mset_eq_imp_distinct_iff)
  show ?thesis
  proof (cases "if \<not> exists (pathJoin [base, ''tag'']) s then Mkdir (pathJoin [base, ''tag'']) s else Inr s")
    case (Inl e)
    then show ?thesis by (simp add: generateTags_def)
  next
    case (Inr s1)
    show ?thesis
    proof (cases "OpenFile (indexFile base) [O_RDWR, O_CREATE] s1")
      case (Inl e)
      then show ?thesis using Inr by (simp add: generateTags_def)
    next
      case (Inr s2)
      have g: "\<And>visit. generateTags visit base articles s = rangeTagMap base (visit ?m) s2"
        using Inr \<open>(if \<not> exists (pathJoin [base, ''tag'']) s then Mkdir (pathJoin [base, ''tag'']) s else Inr s) = Inr s1\<close>
        by (simp add: generateTags_def)
      have "fst (rangeTagMap base (visit1 ?m) s2) = None" using ok g by simp
      from rangeTagMap_perm [OF m12 d1 this] show ?thesis by (simp add: g)
    qed
  qed
qed

subsection \<open>Cleaned paths\<close>

lemma Split_nonempty: "Split s sep \<noteq> []"
  by (induction s) (auto split: list.splits)

lemma Split_append: "Split (a @ sep # b) sep = Split a sep @ Split b sep"
proof (induction a)
  case Nil
  then show ?case by simp
next
  case (Cons c cs)
  obtain p ps where sp: "Split cs sep = p # ps"
    using Split_nonempty [of cs sep] by (cases "Split cs sep") auto
  show ?case using Cons.IH by (simp add: sp)
qed

lemma cleanElems_append:
  "cleanElems r out (xs @ ys) = cleanElems r (rev (cleanElems r out xs)) ys"
  by (induction r out xs rule: cleanElems.induct) (auto split: list.splits)

lemma cleanElems_plain:
  "''..'' \<notin> set ys \<Longrightarrow>
   cleanElems r out ys = rev out @ filter (\<lambda>e. e \<noteq> [] \<and> e \<noteq> ''.'') ys"
  by (induction ys arbitrary: out) auto

lemma Join_append:
  "A \<noteq> [] \<Longrightarrow> F \<noteq> [] \<Longrightarrow> Join (A @ F) sep = Join A sep @ sep @ Join F sep"
proof (induction A)
  case Nil
  then show ?case by simp
next
  case (Cons a A)
  show ?case
  proof (cases A)
    case Nil
    then show ?thesis using Cons.prems(2) by (cases F) auto
  next
    case (Cons b B)
    then show ?thesis using Cons.IH Cons.prems by simp
  qed
qed

lemma Join_nonempty: "F \<noteq> [] \<Longrightarrow> [] \<notin> set F \<Longrightarrow> Join F sep \<noteq> []"
  by (induction F sep rule: Join.induct) auto


lemma Split_plain: "sep \<notin> set b \<Longrightarrow> Split b sep = [b]"
  by (induction b) auto

lemma Split_snoc:
  "sep \<notin> set b \<Longrightarrow> Split (a @ b) sep = butlast (Split a sep) @ [last (Split a sep) @ b]"
proof (induction a)
  case Nil
  then show ?case by (simp add: Split_plain)
next
  case (Cons c cs)
  obtain p ps where sp: "Split cs sep = p # ps"
    using Split_nonempty [of cs sep] by (cases "Split cs sep") auto
  show ?case using Cons sp by (cases ps) auto
qed

lemma cleanElems_snoc:
  assumes "e \<noteq> []" "e \<noteq> ''.''" "e \<noteq> ''..''"
  shows "cleanElems r out (xs @ [e]) = cleanElems r out xs @ [e]"
  using assms by (simp add: cleanElems_append)

lemma Clean_under:
  assumes P: "P \<noteq> []"
    and e: "last (Split P CHR ''/'') \<noteq> []" "last (Split P CHR ''/'') \<noteq> ''.''" "last (Split P CHR ''/'') \<noteq> ''..''"
    and f: "''..'' \<notin> set (Split f CHR ''/'')"
    and l: "last (Split f CHR ''/'') \<noteq> []" "last (Split f CHR ''/'') \<noteq> ''.''"
  shows "Clean (P @ CHR ''/'' # f) =
         Clean P @ ''/'' @ Join (filter (\<lambda>e. e \<noteq> [] \<and> e \<noteq> ''.'') (Split f CHR ''/'')) ''/'' \<and>
         Join (filter (\<lambda>e. e \<noteq> [] \<and> e \<noteq> ''.'') (Split f CHR ''/'')) ''/'' \<noteq> []"
proof -
  define r where "r = (hd P = CHR ''/'')"
  define xs where "xs = butlast (Split P CHR ''/'')"
  define x where "x = last (Split P CHR ''/'')"
  define F where "F = filter (\<lambda>e. e \<noteq> [] \<and> e \<noteq> ''.'') (Split f CHR ''/'')"
  define A where "A = cleanElems r [] xs @ [x]"
  have sp: "Split P CHR ''/'' = xs @ [x]"
    using Split_nonempty [of P "CHR ''/''"] by (simp add: xs_def x_def)
  have cA: "cleanElems r [] (Split P CHR ''/'') = A"
    using e by (simp add: sp A_def cleanElems_snoc x_def [symmetric])
  have cQ: "cleanElems r [] (Split (P @ CHR ''/'' # f) CHR ''/'') = A @ F"
    using f by (simp add: Split_append cleanElems_append cA cleanElems_plain F_def)
  have "last (Split f CHR ''/'') \<in> set (Split f CHR ''/'')"
    using Split_nonempty [of f "CHR ''/''"] by simp
  then have Fne: "F \<noteq> []" using l by (auto simp: F_def filter_empty_conv)
  have Fin: "[] \<notin> set F" by (simp add: F_def)
  have JF: "Join F ''/'' \<noteq> []" using Fne Fin by (rule Join_nonempty)
  have JA: "Join A ''/'' \<noteq> []"
  proof (cases "cleanElems r [] xs")
    case Nil
    then show ?thesis using e(1) by (simp add: A_def x_def)
  next
    case (Cons a as)
    then have "cleanElems r [] xs \<noteq> []" by simp
    then have "Join A ''/'' = Join (cleanElems r [] xs) ''/'' @ ''/'' @ Join [x] ''/''"
      unfolding A_def by (rule Join_append) simp
    then show ?thesis by simp
  qed
  have Ane: "A \<noteq> []" by (simp add: A_def)
  have JQ: "Join (A @ F) ''/'' = Join A ''/'' @ ''/'' @ Join F ''/''"
    using Ane Fne by (rule Join_append)
  have CP: "Clean P = (if r then ''/'' else []) @ Join A ''/''"
    using P JA by (simp add: Clean_def Let_def r_def [symmetric] cA)
  have CQ: "Clean (P @ CHR ''/'' # f) = (if r then ''/'' else []) @ Join (A @ F) ''/''"
    using P JA by (simp add: Clean_def Let_def r_def [symmetric] cQ JQ)
  show ?thesis using CP CQ JQ JF by (simp add: F_def)
qed

lemma tagFile_under:
  assumes "''..'' \<notin> set (Split (t @ ''.html'') CHR ''/'')"
  shows "isUnder (pathJoin [base, ''tag'']) (tagFile base t)"
proof -
  define f where "f = t @ ''.html''"
  define F where "F = Join (filter (\<lambda>e. e \<noteq> [] \<and> e \<noteq> ''.'') (Split f CHR ''/'')) ''/''"
  have lf: "last (Split f CHR ''/'') = last (Split t CHR ''/'') @ ''.html''"
    unfolding f_def by (subst Split_snoc) simp_all
  then have l: "last (Split f CHR ''/'') \<noteq> []" "last (Split f CHR ''/'') \<noteq> ''.''" by simp_all
  have fne: "f \<noteq> []" by (simp add: f_def)
  have key: "P \<noteq> [] \<Longrightarrow> last (Split P CHR ''/'') = ''tag'' \<Longrightarrow>
        Clean (P @ CHR ''/'' # f) = Clean P @ ''/'' @ F \<and> F \<noteq> []" for P
    using Clean_under [of P f] assms l by (simp add: f_def [symmetric] F_def)
  show ?thesis
  proof (cases "base = []")
    case True
    have "Clean (''tag'' @ CHR ''/'' # f) = Clean ''tag'' @ ''/'' @ F \<and> F \<noteq> []"
      by (rule key) simp_all
    then show ?thesis
      using True fne by (simp add: tagFile_def pathJoin_def isUnder_def HasPrefix_def f_def [symmetric])
  next
    case False
    have "last (Split (base @ CHR ''/'' # ''tag'') CHR ''/'') = ''tag''"
      using Split_nonempty [of base "CHR ''/''"] by (simp add: Split_append)
    then have "Clean ((base @ CHR ''/'' # ''tag'') @ CHR ''/'' # f) = Clean (base @ CHR ''/'' # ''tag'') @ ''/'' @ F \<and> F \<noteq> []"
      by (intro key) simp_all
    then show ?thesis
      using False fne by (simp add: tagFile_def pathJoin_def isUnder_def HasPrefix_def f_def [symmetric])
  qed
qed

lemma Clean_snoc:
  assumes "base \<noteq> []" and "e \<noteq> []" "e \<noteq> ''.''" "e \<noteq> ''..''" "CHR ''/'' \<notin> set e"
  shows "Clean (base @ CHR ''/'' # e) =
         (if hd base = CHR ''/'' then ''/'' else []) @
         (if cleanElems (hd base = CHR ''/'') [] (Split base CHR ''/'') = [] then []
          else Join (cleanElems (hd base = CHR ''/'') [] (Split base CHR ''/'')) ''/'' @ ''/'') @ e"
proof -
  define r where "r = (hd base = CHR ''/'')"
  define A where "A = cleanElems r [] (Split base CHR ''/'')"
  have c: "cleanElems r [] (Split (base @ CHR ''/'' # e) CHR ''/'') = A @ [e]"
    using assms by (simp add: Split_append Split_plain cleanElems_snoc A_def)
  have j: "Join (A @ [e]) ''/'' = (if A = [] then [] else Join A ''/'' @ ''/'') @ e"
  proof (cases "A = []")
    case True
    then show ?thesis by simp
  next
    case False
    then have "Join (A @ [e]) ''/'' = Join A ''/'' @ ''/'' @ Join [e] ''/''"
      by (rule Join_append) simp
    then show ?thesis using False by simp
  qed
  show ?thesis
    using assms(1,2) by (simp add: Clean_def Let_def r_def [symmetric] c j A_def [symmetric])
qed

lemma index_not_under_tag: "\<not> isUnder (pathJoin [base, ''tag'']) (indexFile base)"
proof (cases "base = []")
  case True
  then show ?thesis by (simp add: indexFile_def pathJoin_def Clean_def isUnder_def HasPrefix_def)
next
  case False
  define X where "X = (if hd base = CHR ''/'' then ''/'' else []) @
         (if cleanElems (hd base = CHR ''/'') [] (Split base CHR ''/'') = [] then []
          else Join (cleanElems (hd base = CHR ''/'') [] (Split base CHR ''/'')) ''/'' @ ''/'')"
  have i: "indexFile base = X @ ''index.html''"
    using False Clean_snoc [of base "''index.html''"] by (simp add: indexFile_def pathJoin_def X_def)
  have t: "pathJoin [base, ''tag''] = X @ ''tag''"
    using False Clean_snoc [of base "''tag''"] by (simp add: pathJoin_def X_def)
  show ?thesis by (simp add: i t isUnder_def HasPrefix_def)
qed

subsection \<open>What \<open>generateTags\<close> leaves alone\<close>

lemma isOrder_Nil: "isOrder visit \<Longrightarrow> visit [] = []"
proof -
  assume "isOrder visit"
  then have "mset (visit []) = mset []" unfolding isOrder_def by blast
  then show ?thesis by simp
qed

lemma isOrder_subset: "isOrder visit \<Longrightarrow> set (visit m) \<subseteq> set m"
  using mset_eq_setD [of "visit m" m] by (simp add: isOrder_def)

lemma isOrder_id: "isOrder (\<lambda>m. m)"
  by (simp add: isOrder_def)

lemma isOrder_rev: "isOrder rev"
  by (simp add: isOrder_def)

lemma tagDir_step:
  "(if \<not> exists d s then Mkdir d s else Inr s) = Inr s1 \<Longrightarrow> files s1 = files s"
  by (auto simp: Mkdir_def split: if_splits)

lemma OpenFile_contentOf:
  "OpenFile p [O_RDWR, O_CREATE] s = Inr s1 \<Longrightarrow> contentOf s1 q = contentOf s q"
  by (auto simp: OpenFile_create contentOf_def split: if_splits)

lemma generateTags_contentOf:
  assumes "set (visit (buildTagMap [] articles)) \<subseteq> set (buildTagMap [] articles)"
    and "p \<notin> tagFile base ` tagsOf articles"
  shows "contentOf (snd (generateTags visit base articles s)) p = contentOf s p"
proof -
  let ?m = "buildTagMap [] articles"
  let ?d = "pathJoin [base, ''tag'']"
  have "(\<lambda>e. tagFile base (fst e)) ` set (visit ?m) \<subseteq> tagFile base ` fst ` set ?m"
    using assms(1) by auto
  then have notin: "p \<notin> (\<lambda>e. tagFile base (fst e)) ` set (visit ?m)"
    using assms(2) tagMap_keys(2) [of articles] by auto
  show ?thesis
  proof (cases "if \<not> exists ?d s then Mkdir ?d s else Inr s")
    case (Inl e)
    then show ?thesis by (simp add: generateTags_def)
  next
    case (Inr s1)
    then have f1: "files s1 = files s" by (rule tagDir_step)
    show ?thesis
    proof (cases "OpenFile (indexFile base) [O_RDWR, O_CREATE] s1")
      case (Inl e)
      then show ?thesis using Inr f1 by (simp add: generateTags_def contentOf_def)
    next
      case (Inr s2)
      have g: "generateTags visit base articles s = rangeTagMap base (visit ?m) s2"
        using Inr \<open>(if \<not> exists ?d s then Mkdir ?d s else Inr s) = Inr s1\<close>
        by (simp add: generateTags_def)
      have "contentOf (snd (rangeTagMap base (visit ?m) s2)) p = contentOf s2 p"
        using rangeTagMap_frame [OF notin] by (simp add: contentOf_def)
      also have "\<dots> = contentOf s1 p" using Inr by (rule OpenFile_contentOf)
      also have "\<dots> = contentOf s p" using f1 by (simp add: contentOf_def)
      finally show ?thesis by (simp add: g)
    qed
  qed
qed

lemma rangeTagMap_keeps:
  "files s p \<noteq> None \<Longrightarrow> files (snd (rangeTagMap base m s)) p \<noteq> None"
proof (induction m arbitrary: s)
  case Nil
  then show ?case by simp
next
  case (Cons e m)
  obtain k v where e: "e = (k, v)" by (cases e)
  show ?case using Cons.prems Cons.IH by (auto simp: e generateTagFile_eq)
qed

lemma tagDir_step_dirs:
  "(if \<not> exists d s then Mkdir d s else Inr s) = Inr s1 \<Longrightarrow> dirs s1 = dirs s \<or> dirs s1 = insert d (dirs s)"
  by (auto simp: Mkdir_def split: if_splits)

lemma OpenFile_files:
  "OpenFile p [O_RDWR, O_CREATE] s = Inr s1 \<Longrightarrow>
   dirs s1 = dirs s \<and> files s1 p = Some (contentOf s p) \<and> (\<forall>q. q \<noteq> p \<longrightarrow> files s1 q = files s q)"
  by (auto simp: OpenFile_create split: if_splits)

lemma generateTags_files:
  assumes sub: "set (visit (buildTagMap [] articles)) \<subseteq> set (buildTagMap [] articles)"
  shows "(indexFile base \<notin> tagFile base ` tagsOf articles \<longrightarrow>
            files (snd (generateTags visit base articles s)) (indexFile base) = files s (indexFile base) \<or>
            files s (indexFile base) = None \<and>
            files (snd (generateTags visit base articles s)) (indexFile base) = Some []) \<and>
         (fst (generateTags visit base articles s) = None \<longrightarrow>
            files (snd (generateTags visit base articles s)) (indexFile base) \<noteq> None) \<and>
         (\<forall>p. p \<notin> tagFile base ` tagsOf articles \<and> p \<noteq> indexFile base \<longrightarrow>
            files (snd (generateTags visit base articles s)) p = files s p) \<and>
         (dirs (snd (generateTags visit base articles s)) = dirs s \<or>
          dirs (snd (generateTags visit base articles s)) = insert (pathJoin [base, ''tag'']) (dirs s))"
proof -
  let ?m = "buildTagMap [] articles"
  let ?d = "pathJoin [base, ''tag'']"
  have "(\<lambda>e. tagFile base (fst e)) ` set (visit ?m) \<subseteq> tagFile base ` fst ` set ?m"
    using sub by auto
  then have paths: "(\<lambda>e. tagFile base (fst e)) ` set (visit ?m) \<subseteq> tagFile base ` tagsOf articles"
    using tagMap_keys(2) [of articles] by auto
  show ?thesis
  proof (cases "if \<not> exists ?d s then Mkdir ?d s else Inr s")
    case (Inl e)
    then show ?thesis by (simp add: generateTags_def)
  next
    case (Inr s1)
    then have f1: "files s1 = files s" by (rule tagDir_step)
    have d1: "dirs s1 = dirs s \<or> dirs s1 = insert ?d (dirs s)" using Inr by (rule tagDir_step_dirs)
    show ?thesis
    proof (cases "OpenFile (indexFile base) [O_RDWR, O_CREATE] s1")
      case (Inl e)
      then show ?thesis using Inr f1 d1 by (simp add: generateTags_def)
    next
      case (Inr s2)
      have g: "generateTags visit base articles s = rangeTagMap base (visit ?m) s2"
        using Inr \<open>(if \<not> exists ?d s then Mkdir ?d s else Inr s) = Inr s1\<close>
        by (simp add: generateTags_def)
      have o: "dirs s2 = dirs s1" "files s2 (indexFile base) = Some (contentOf s1 (indexFile base))"
        "\<And>q. q \<noteq> indexFile base \<Longrightarrow> files s2 q = files s1 q"
        using OpenFile_files [OF Inr] by simp_all
      have c1: "contentOf s1 (indexFile base) = contentOf s (indexFile base)"
        using f1 by (simp add: contentOf_def)
      have frame: "p \<notin> tagFile base ` tagsOf articles \<Longrightarrow>
          files (snd (rangeTagMap base (visit ?m) s2)) p = files s2 p" for p
        using paths by (intro rangeTagMap_frame) auto
      have A: "indexFile base \<notin> tagFile base ` tagsOf articles \<longrightarrow>
            files (snd (generateTags visit base articles s)) (indexFile base) = files s (indexFile base) \<or>
            files s (indexFile base) = None \<and>
            files (snd (generateTags visit base articles s)) (indexFile base) = Some []"
        using frame [of "indexFile base"] o(2) c1
        by (cases "files s (indexFile base)") (auto simp: g contentOf_def)
      have B: "files (snd (generateTags visit base articles s)) (indexFile base) \<noteq> None"
        unfolding g by (rule rangeTagMap_keeps) (simp add: o(2))
      have C: "\<forall>p. p \<notin> tagFile base ` tagsOf articles \<and> p \<noteq> indexFile base \<longrightarrow>
            files (snd (generateTags visit base articles s)) p = files s p"
        using frame o(3) f1 by (simp add: g)
      have D: "dirs (snd (generateTags visit base articles s)) = dirs s \<or>
          dirs (snd (generateTags visit base articles s)) = insert ?d (dirs s)"
        using d1 o(1) by (simp add: g rangeTagMap_dirs)
      show ?thesis using A B C D by blast
    qed
  qed
qed

lemma generateTags_no_articles:
  assumes "isOrder visit" and "files s (indexFile base) \<noteq> None"
  shows "files (snd (generateTags visit base [] s)) = files s"
proof -
  let ?d = "pathJoin [base, ''tag'']"
  show ?thesis
  proof (cases "if \<not> exists ?d s then Mkdir ?d s else Inr s")
    case (Inl e)
    then show ?thesis by (simp add: generateTags_def)
  next
    case (Inr s1)
    then have f1: "files s1 = files s" by (rule tagDir_step)
    show ?thesis
    proof (cases "OpenFile (indexFile base) [O_RDWR, O_CREATE] s1")
      case (Inl e)
      then show ?thesis using Inr f1 by (simp add: generateTags_def)
    next
      case (Inr s2)
      then have "files s2 = files s1"
        using assms(2) f1 by (auto simp: OpenFile_def split: option.splits if_splits)
      then show ?thesis
        using Inr f1 \<open>(if \<not> exists ?d s then Mkdir ?d s else Inr s) = Inr s1\<close> isOrder_Nil [OF assms(1)]
        by (simp add: generateTags_def)
    qed
  qed
qed

lemma execHome_Nil: "execHome (prepareForRender []) = homeHead @ homeFoot"
  by (simp add: execHome_def prepareForRender_def)

lemma reverse_Nil: "reverse [] = []"
  by (simp add: reverse_def)

lemma writeOver_Nil: "writeOver [] new = new"
  by (simp add: writeOver_def)

subsection \<open>A run as a sequence of writes, and a second run\<close>

lemma generateArticlePages_ops: "generateArticlePages base articles s = runOps (articleOps base articles) s"
  by (induction articles arbitrary: s) (simp_all add: articleOps_def generateArticlePage_eq applyOp_def)

lemma rangeTagMap_ops: "rangeTagMap base m s = runOps (tagPages base m) s"
proof (induction m arbitrary: s)
  case Nil
  then show ?case by (simp add: tagPages_def)
next
  case (Cons e m)
  obtain k v where e: "e = (k, v)" by (cases e)
  show ?case using Cons.IH by (simp add: e tagPages_Cons generateTagFile_eq applyOp_def)
qed

lemma generateIndex_ops:
  "generateIndex base articles s = runOps [(indexFile base, execHome (prepareForRender articles))] s"
  by (simp add: generateIndex_eq applyOp_def)

lemma runOps_append:
  "runOps (xs @ ys) s =
   (case runOps xs s of (Some e, s1) \<Rightarrow> (Some e, s1) | (None, s1) \<Rightarrow> runOps ys s1)"
  by (induction xs arbitrary: s) simp_all

lemma runOps_result: "runOps ws s = (None, s') \<Longrightarrow> s' = fold applyOp ws s"
  by (induction ws arbitrary: s) (auto split: if_splits)

lemma canOpen_applyOp: "canOpen (fst w) s \<Longrightarrow> canOpen q (applyOp w s) = canOpen q s"
  by (auto simp: canOpen_def applyOp_def)

lemma runOps_success: "fst (runOps ws s) = None \<longleftrightarrow> (\<forall>w\<in>set ws. canOpen (fst w) s)"
  by (induction ws arbitrary: s) (auto simp: canOpen_applyOp)

lemma dirs_fold: "dirs (fold applyOp ws s) = dirs s"
  by (induction ws arbitrary: s) (simp_all add: applyOp_def)

lemma contentOf_applyOp:
  "contentOf (applyOp w s) p = (if fst w = p then writeOver (contentOf s p) (snd w) else contentOf s p)"
  by (auto simp: applyOp_def contentOf_def)

lemma contentOf_fold:
  "contentOf (fold applyOp ws s) p =
   foldl writeOver (contentOf s p) (map snd (filter (\<lambda>w. fst w = p) ws))"
  by (induction ws arbitrary: s) (simp_all add: contentOf_applyOp)

lemma files_fold:
  "files (fold applyOp ws s) p =
   (if p \<in> fst ` set ws then Some (contentOf (fold applyOp ws s) p) else files s p)"
proof (induction ws arbitrary: s)
  case Nil
  then show ?case by simp
next
  case (Cons w ws)
  show ?case
  proof (cases "p \<in> fst ` set ws")
    case True
    then show ?thesis using Cons.IH [of "applyOp w s"] by simp
  next
    case False
    then have "filter (\<lambda>w. fst w = p) ws = []" by (auto simp: filter_empty_conv)
    then show ?thesis
      using False Cons.IH [of "applyOp w s"]
      by (auto simp: contentOf_fold contentOf_applyOp) (auto simp: applyOp_def contentOf_def)
  qed
qed

lemma foldl_writeOver: "\<exists>c. \<forall>x. foldl writeOver x ws = c @ drop (length c) x"
proof (induction ws)
  case Nil
  have "\<forall>x. foldl writeOver x [] = [] @ drop (length ([]::string)) x" by simp
  then show ?case by blast
next
  case (Cons w ws)
  then obtain c where c: "\<And>y. foldl writeOver y ws = c @ drop (length c) y" by blast
  have eq: "length c - length w + length w = length c + (length w - length c)" by arith
  have "\<forall>x. foldl writeOver x (w # ws) =
        (c @ drop (length c) w) @ drop (length (c @ drop (length c) w)) x"
    by (simp add: c writeOver_def eq)
  then show ?case by blast
qed

lemma foldl_writeOver_idem: "foldl writeOver (foldl writeOver x ws) ws = foldl writeOver x ws"
proof -
  obtain c where c: "\<And>y. foldl writeOver y ws = c @ drop (length c) y"
    using foldl_writeOver [of ws] by blast
  show ?thesis by (simp add: c)
qed

lemma files_fold_cong:
  "files s = files t \<Longrightarrow> files (fold applyOp ws s) = files (fold applyOp ws t)"
proof (induction ws arbitrary: s t)
  case Nil
  then show ?case by simp
next
  case (Cons w ws)
  have "files (applyOp w s) = files (applyOp w t)"
    using Cons.prems by (simp add: applyOp_def contentOf_def)
  then have "files (fold applyOp ws (applyOp w s)) = files (fold applyOp ws (applyOp w t))"
    by (rule Cons.IH)
  then show ?case by simp
qed

lemma fold_applyOp_idem:
  assumes "files t = files (fold applyOp ws s)"
  shows "files (fold applyOp ws t) = files t"
proof
  fix p
  have ct: "contentOf t p = contentOf (fold applyOp ws s) p"
    using assms by (simp add: contentOf_def)
  have "contentOf (fold applyOp ws t) p = contentOf t p"
    by (simp add: contentOf_fold [of ws t] ct contentOf_fold [of ws s] foldl_writeOver_idem)
  then show "files (fold applyOp ws t) p = files t p"
    using assms by (simp add: files_fold [of ws t] files_fold [of ws s] ct)
qed

lemma files_fold_keeps: "files s p \<noteq> None \<Longrightarrow> files (fold applyOp ws s) p \<noteq> None"
  by (simp add: files_fold)

lemma files_fold_written: "p \<in> fst ` set ws \<Longrightarrow> files (fold applyOp ws s) p \<noteq> None"
  by (simp add: files_fold)

lemma runOps_ok: "\<forall>w\<in>set ws. canOpen (fst w) s \<Longrightarrow> runOps ws s = (None, fold applyOp ws s)"
proof -
  assume "\<forall>w\<in>set ws. canOpen (fst w) s"
  then have "fst (runOps ws s) = None" by (simp add: runOps_success)
  then have "runOps ws s = (None, snd (runOps ws s))" by (simp add: prod_eq_iff)
  then show ?thesis using runOps_result [of ws s "snd (runOps ws s)"] by simp
qed

lemma Generate_ops:
  assumes "parseFile md notes = Inr arr"
  shows "Generate md visit notes base s =
    (case runOps ((indexFile base, execHome (prepareForRender arr)) # articleOps base arr) s of
       (Some e, s2) \<Rightarrow> (Some e, s2)
     | (None, s2) \<Rightarrow> generateTags visit base arr s2)"
  using runOps_append [of "[(indexFile base, execHome (prepareForRender arr))]" "articleOps base arr" s]
  by (simp add: Generate_def assms generateIndex_ops generateArticlePages_ops del: runOps.simps
      split: prod.splits option.splits)

lemma tagDir_step_exists:
  "(if \<not> exists d s then Mkdir d s else Inr s) = Inr s1 \<Longrightarrow>
   exists d s1 \<and> (s1 = s \<or> (\<not> exists d s \<and> dirs s1 = insert d (dirs s)))"
  by (auto simp: Mkdir_def exists_def split: if_splits)

lemma OpenFile_existing:
  "files s p \<noteq> None \<Longrightarrow> p \<notin> dirs s \<Longrightarrow> OpenFile p [O_RDWR, O_CREATE] s = Inr s"
  by (auto simp: OpenFile_def)

lemma OpenFile_existing_result:
  "files s p \<noteq> None \<Longrightarrow> OpenFile p [O_RDWR, O_CREATE] s = Inr s1 \<Longrightarrow> s1 = s"
  by (auto simp: OpenFile_def split: if_splits)

lemma fs_eqI: "dirs (s::fs) = dirs t \<Longrightarrow> files s = files t \<Longrightarrow> s = t"
  by simp

lemma Generate_again:
  assumes parsed: "parseFile md notes = Inr arr"
    and ok: "Generate md visit notes base s = (None, s')"
  shows "Generate md visit notes base s' = (None, s')"
proof -
  let ?i = "indexFile base"
  let ?d = "pathJoin [base, ''tag'']"
  let ?step = "\<lambda>s. if \<not> exists ?d s then Mkdir ?d s else Inr s"
  define ops1 where "ops1 = (?i, execHome (prepareForRender arr)) # articleOps base arr"
  define ops2 where "ops2 = tagPages base (visit (buildTagMap [] arr))"
  have G: "\<And>s. Generate md visit notes base s =
      (case runOps ops1 s of (Some e, s2) \<Rightarrow> (Some e, s2)
       | (None, s2) \<Rightarrow> generateTags visit base arr s2)"
    unfolding ops1_def by (rule Generate_ops [OF parsed])
  have T: "\<And>s. generateTags visit base arr s =
      (case ?step s of Inl e \<Rightarrow> (Some e, s)
       | Inr s1 \<Rightarrow> (case OpenFile ?i [O_RDWR, O_CREATE] s1 of Inl e \<Rightarrow> (Some e, s1)
                    | Inr s2 \<Rightarrow> runOps ops2 s2))"
    by (simp add: generateTags_def rangeTagMap_ops ops2_def Let_def split: sum.splits)
  have i1: "?i \<in> fst ` set ops1" by (simp add: ops1_def)
  obtain e2 s2 where r1: "runOps ops1 s = (e2, s2)" by (cases "runOps ops1 s")
  have e2: "e2 = None" and gt: "generateTags visit base arr s2 = (None, s')"
    using ok r1 by (cases e2; simp add: G)+
  have s2: "s2 = fold applyOp ops1 s" using r1 e2 by (simp add: runOps_result)
  have c1: "\<forall>w\<in>set ops1. canOpen (fst w) s"
    using r1 e2 runOps_success [of ops1 s] by simp
  obtain s3 where st: "?step s2 = Inr s3"
    using gt by (cases "?step s2") (simp_all add: T)
  obtain s4 where op: "OpenFile ?i [O_RDWR, O_CREATE] s3 = Inr s4"
    using gt st by (cases "OpenFile ?i [O_RDWR, O_CREATE] s3") (simp_all add: T)
  have r2: "runOps ops2 s4 = (None, s')"
    using gt st op by (simp add: T)
  have f3: "files s3 = files s2" using st by (rule tagDir_step)
  have ex3: "exists ?d s3" and d3: "s3 = s2 \<or> (\<not> exists ?d s2 \<and> dirs s3 = insert ?d (dirs s2))"
    using tagDir_step_exists [OF st] by simp_all
  have w1: "\<And>p. p \<in> fst ` set ops1 \<Longrightarrow> files s2 p \<noteq> None"
    unfolding s2 by (rule files_fold_written)
  then have "files s3 ?i \<noteq> None" using i1 by (simp add: f3)
  then have s4: "s4 = s3" using op by (rule OpenFile_existing_result)
  have s': "s' = fold applyOp ops2 s3" using r2 s4 by (simp add: runOps_result)
  have c2: "\<forall>w\<in>set ops2. canOpen (fst w) s3"
    using r2 s4 runOps_success [of ops2 s3] by simp
  have ds': "dirs s' = dirs s3" by (simp add: s' dirs_fold)
  have ds2: "dirs s2 = dirs s" by (simp add: s2 dirs_fold)
  have nd1: "\<And>p. p \<in> fst ` set ops1 \<Longrightarrow> p \<notin> dirs s3"
  proof -
    fix p assume p: "p \<in> fst ` set ops1"
    then have "canOpen p s" using c1 by auto
    then have "p \<notin> dirs s2" by (simp add: canOpen_def ds2)
    moreover have "files s2 p \<noteq> None" using p by (rule w1)
    ultimately show "p \<notin> dirs s3" using d3 by (auto simp: exists_def)
  qed
  have k1: "\<And>p. files s2 p \<noteq> None \<Longrightarrow> files s' p \<noteq> None"
    unfolding s' using files_fold_keeps [of s3 _ ops2] by (simp add: f3)
  have c1': "\<forall>w\<in>set ops1. canOpen (fst w) s'"
  proof
    fix w assume "w \<in> set ops1"
    then have p: "fst w \<in> fst ` set ops1" by (rule imageI)
    show "canOpen (fst w) s'"
      using nd1 [OF p] k1 [OF w1 [OF p]] by (simp add: canOpen_def ds')
  qed
  define u2 where "u2 = fold applyOp ops1 s'"
  have q1: "runOps ops1 s' = (None, u2)" unfolding u2_def using c1' by (rule runOps_ok)
  have du2: "dirs u2 = dirs s3" by (simp add: u2_def dirs_fold ds')
  have ku2: "\<And>p. files s' p \<noteq> None \<Longrightarrow> files u2 p \<noteq> None"
    unfolding u2_def by (rule files_fold_keeps)
  have exu2: "exists ?d u2"
  proof (cases "?d \<in> dirs s3")
    case True
    then show ?thesis by (simp add: exists_def du2)
  next
    case False
    then have "files s2 ?d \<noteq> None" using ex3 by (simp add: exists_def f3)
    then have "files u2 ?d \<noteq> None" by (intro ku2 k1)
    then show ?thesis by (simp add: exists_def)
  qed
  have opu2: "OpenFile ?i [O_RDWR, O_CREATE] u2 = Inr u2"
  proof (rule OpenFile_existing)
    show "files u2 ?i \<noteq> None" by (intro ku2 k1 w1 i1)
    show "?i \<notin> dirs u2" using nd1 [OF i1] by (simp add: du2)
  qed
  have c2': "\<forall>w\<in>set ops2. canOpen (fst w) u2"
  proof
    fix w assume w: "w \<in> set ops2"
    then have "canOpen (fst w) s3" using c2 by blast
    then have "fst w \<notin> dirs s3" by (simp add: canOpen_def)
    moreover have "files s' (fst w) \<noteq> None"
      unfolding s' using w by (intro files_fold_written imageI)
    then have "files u2 (fst w) \<noteq> None" by (rule ku2)
    ultimately show "canOpen (fst w) u2" by (simp add: canOpen_def du2)
  qed
  define u where "u = fold applyOp ops2 u2"
  have q2: "runOps ops2 u2 = (None, u)" unfolding u_def using c2' by (rule runOps_ok)
  have gt2: "generateTags visit base arr u2 = (None, u)"
    using exu2 opu2 q2 by (simp add: T)
  have run2: "Generate md visit notes base s' = (None, u)"
    using q1 gt2 by (simp add: G)
  have "files s' = files (fold applyOp ops2 s2)"
    unfolding s' using f3 by (rule files_fold_cong)
  then have fs': "files s' = files (fold applyOp (ops1 @ ops2) s)"
    by (simp add: s2)
  have "files u = files (fold applyOp (ops1 @ ops2) s')" by (simp add: u_def u2_def)
  also have "\<dots> = files s'" using fs' by (rule fold_applyOp_idem)
  finally have "files u = files s'" .
  moreover have "dirs u = dirs s'" by (simp add: u_def u2_def dirs_fold)
  ultimately have "u = s'" by (intro fs_eqI)
  then show ?thesis using run2 by simp
qed

lemma foldl_writeOver_from_empty:
  "foldl writeOver x ws = foldl writeOver [] ws @ drop (length (foldl writeOver [] ws)) x"
proof -
  obtain c where c: "\<And>y. foldl writeOver y ws = c @ drop (length c) y"
    using foldl_writeOver [of ws] by blast
  have "foldl writeOver [] ws = c" using c [of "[]"] by simp
  then show ?thesis using c [of x] by simp
qed

lemma Generate_files:
  assumes parsed: "parseFile md notes = Inr arr"
    and ok: "Generate md visit notes base s = (None, s')"
  shows "files s' = files (fold applyOp (writes visit base arr) s)"
proof -
  let ?i = "indexFile base"
  let ?d = "pathJoin [base, ''tag'']"
  let ?step = "\<lambda>s. if \<not> exists ?d s then Mkdir ?d s else Inr s"
  define ops1 where "ops1 = (?i, execHome (prepareForRender arr)) # articleOps base arr"
  define ops2 where "ops2 = tagPages base (visit (buildTagMap [] arr))"
  have G: "\<And>s. Generate md visit notes base s =
      (case runOps ops1 s of (Some e, s2) \<Rightarrow> (Some e, s2)
       | (None, s2) \<Rightarrow> generateTags visit base arr s2)"
    unfolding ops1_def by (rule Generate_ops [OF parsed])
  have T: "\<And>s. generateTags visit base arr s =
      (case ?step s of Inl e \<Rightarrow> (Some e, s)
       | Inr s1 \<Rightarrow> (case OpenFile ?i [O_RDWR, O_CREATE] s1 of Inl e \<Rightarrow> (Some e, s1)
                    | Inr s2 \<Rightarrow> runOps ops2 s2))"
    by (simp add: generateTags_def rangeTagMap_ops ops2_def Let_def split: sum.splits)
  have i1: "?i \<in> fst ` set ops1" by (simp add: ops1_def)
  obtain e2 s2 where r1: "runOps ops1 s = (e2, s2)" by (cases "runOps ops1 s")
  have e2: "e2 = None" and gt: "generateTags visit base arr s2 = (None, s')"
    using ok r1 by (cases e2; simp add: G)+
  have s2: "s2 = fold applyOp ops1 s" using r1 e2 by (simp add: runOps_result)
  obtain s3 where st: "?step s2 = Inr s3"
    using gt by (cases "?step s2") (simp_all add: T)
  obtain s4 where op: "OpenFile ?i [O_RDWR, O_CREATE] s3 = Inr s4"
    using gt st by (cases "OpenFile ?i [O_RDWR, O_CREATE] s3") (simp_all add: T)
  have r2: "runOps ops2 s4 = (None, s')"
    using gt st op by (simp add: T)
  have f3: "files s3 = files s2" using st by (rule tagDir_step)
  have "files s2 ?i \<noteq> None" unfolding s2 using i1 by (rule files_fold_written)
  then have "files s3 ?i \<noteq> None" by (simp add: f3)
  then have s4: "s4 = s3" using op by (rule OpenFile_existing_result)
  have s': "s' = fold applyOp ops2 s3" using r2 s4 by (simp add: runOps_result)
  have "files s' = files (fold applyOp ops2 s2)"
    unfolding s' using f3 by (rule files_fold_cong)
  then have "files s' = files (fold applyOp (ops1 @ ops2) s)"
    by (simp add: s2)
  then show ?thesis by (simp add: writes_def ops1_def ops2_def)
qed

lemma Generate_perm:
  assumes v1: "isOrder visit1" and v2: "isOrder visit2"
    and parsed: "parseFile md notes = Inr arr"
    and inj: "inj_on (tagFile base) (tagsOf arr)"
    and ok: "fst (Generate md visit1 notes base s) = None"
  shows "Generate md visit2 notes base s = Generate md visit1 notes base s"
proof -
  obtain e1 s1 where gi: "generateIndex base arr s = (e1, s1)" by (cases "generateIndex base arr s")
  obtain e2 s2 where ga: "generateArticlePages base arr s1 = (e2, s2)"
    by (cases "generateArticlePages base arr s1")
  show ?thesis
  proof (cases e1)
    case (Some e)
    then show ?thesis by (simp add: Generate_def parsed gi)
  next
    case None
    show ?thesis
    proof (cases e2)
      case (Some e)
      then show ?thesis using None by (simp add: Generate_def parsed gi ga)
    next
      case None
      have g: "\<And>visit. Generate md visit notes base s = generateTags visit base arr s2"
        using None \<open>e1 = None\<close> by (simp add: Generate_def parsed gi ga)
      have "fst (generateTags visit1 base arr s2) = None" using ok g by simp
      from generateTags_perm [OF v1 v2 inj this] show ?thesis by (simp add: g)
    qed
  qed
qed

lemma articleOps_paths: "map fst (articleOps base arr) = map (articleFile base) (map Index arr)"
  by (simp add: articleOps_def)

section \<open>Evaluations at concrete inputs\<close>

lemma Sprintf_d_0: "Sprintf_d 0 = ''0''"
  by (simp add: Sprintf_d_def decimal.simps digitChar_def)

lemma Sprintf_d_1: "Sprintf_d 1 = ''1''"
  by (simp add: Sprintf_d_def decimal.simps digitChar_def)

lemma date_0302: "timeParse ''2015/03/02'' = (\<lparr>year = 2015, month = 3, day = 2\<rparr>, None)"
  by (simp add: timeParse_def isDigit_def digitVal_def daysIn_def)

lemma trim_date: "TrimSpace (TrimLeft ''Date: 2015/03/02'' ''Date:'') = ''2015/03/02''"
  by (simp add: TrimSpace_def TrimLeft_def spaceRunes_def HasPrefix_def)

lemma parse_A:
  "parseArticle md ''# A'' [''Date: 2015/03/02''] =
   (\<lparr>Header = ''A'', Content = md ''# A'', Tags = [[]], Date = \<lparr>year = 2015, month = 3, day = 2\<rparr>, Index = 0\<rparr>, None)"
  by (simp add: parseArticle_def HasPrefix_def trim_date date_0302)
     (simp add: TrimSpace_def TrimLeft_def spaceRunes_def HasPrefix_def)

lemma parseFile_A:
  "parseFile md (Some [''# A'', ''Date: 2015/03/02'']) =
   Inr [zeroArticle,
        \<lparr>Header = ''A'', Content = md ''# A'', Tags = [[]], Date = \<lparr>year = 2015, month = 3, day = 2\<rparr>, Index = 1\<rparr>]"
  by (simp add: parseFile_def finish_def parse_A reverse_def HasPrefix_def)

lemma docs_paths:
  "indexFile ''docs'' = ''docs/index.html''"
  "articleFile ''docs'' 0 = ''docs/0.html''"
  "articleFile ''docs'' 1 = ''docs/1.html''"
  "pathJoin [''docs'', ''tag''] = ''docs/tag''"
  "tagFile ''docs'' [] = ''docs/tag/.html''"
  by (simp_all add: indexFile_def articleFile_def tagFile_def pathJoin_def Clean_def
      Sprintf_d_0 Sprintf_d_1)

lemma docs_parents:
  "parentDir ''docs/index.html'' = ''docs''"
  "parentDir ''docs/0.html'' = ''docs''"
  "parentDir ''docs/1.html'' = ''docs''"
  "parentDir ''docs/tag'' = ''docs''"
  "parentDir ''docs/tag/.html'' = ''docs/tag''"
  by (simp_all add: parentDir_def)

lemma date_0303: "timeParse ''2015/03/03'' = (\<lparr>year = 2015, month = 3, day = 3\<rparr>, None)"
  by (simp add: timeParse_def isDigit_def digitVal_def daysIn_def)

lemma trim_date3: "TrimSpace (TrimLeft ''Date: 2015/03/03'' ''Date:'') = ''2015/03/03''"
  by (simp add: TrimSpace_def TrimLeft_def spaceRunes_def HasPrefix_def)

lemma trim_words:
  "TrimSpace [] = []"
  "TrimSpace ''A'' = ''A''"
  "TrimSpace ''B'' = ''B''"
  "TrimSpace ''X'' = ''X''"
  "TrimSpace ''o'' = ''o''"
  "TrimSpace ''go'' = ''go''"
  "TrimSpace ''web'' = ''web''"
  "TrimSpace '' go'' = ''go''"
  "TrimSpace '' web'' = ''web''"
  "TrimSpace ''a'' = ''a''"
  "TrimSpace '' b'' = ''b''"
  "TrimSpace '' ./a'' = ''./a''"
  "TrimSpace '' a'' = ''a''"
  "TrimSpace '' ../index'' = ''../index''"
  by (simp_all add: TrimSpace_def spaceRunes_def HasPrefix_def)

lemma parse_B:
  "parseArticle md ''# B'' [''Date: 2015/03/03'', ''Tags:go,web''] =
   (\<lparr>Header = ''B'', Content = md ''# B'', Tags = [''o'', ''web''],
     Date = \<lparr>year = 2015, month = 3, day = 3\<rparr>, Index = 0\<rparr>, None)"
  by (simp add: parseArticle_def HasPrefix_def trim_date3 date_0303)
     (simp add: TrimLeft_def trim_words)

lemma parse_B_spaced:
  "parseArticle md ''# B'' [''Date: 2015/03/03'', ''Tags: go, web''] =
   (\<lparr>Header = ''B'', Content = md ''# B'', Tags = [''go'', ''web''],
     Date = \<lparr>year = 2015, month = 3, day = 3\<rparr>, Index = 0\<rparr>, None)"
  by (simp add: parseArticle_def HasPrefix_def trim_date3 date_0303)
     (simp add: TrimLeft_def trim_words)

lemma parse_C:
  "parseArticle md ''# C'' [''Date: 2015/03/03''] =
   (\<lparr>Header = ''C'', Content = md ''# C'', Tags = [[]],
     Date = \<lparr>year = 2015, month = 3, day = 3\<rparr>, Index = 0\<rparr>, None)"
  by (simp add: parseArticle_def HasPrefix_def trim_date3 date_0303)
     (simp add: TrimSpace_def TrimLeft_def spaceRunes_def HasPrefix_def)

lemma lastWithPrefix_none: "\<forall>l\<in>set ls. \<not> HasPrefix l p \<Longrightarrow> lastWithPrefix p ls = []"
proof -
  assume "\<forall>l\<in>set ls. \<not> HasPrefix l p"
  then have "filter (\<lambda>l. HasPrefix l p) ls = []" by (simp add: filter_empty_conv)
  then show ?thesis by (simp add: lastWithPrefix_def)
qed

lemma docs_tag_go: "tagFile ''docs'' ''go'' = ''docs/tag/go.html''"
  by (simp add: tagFile_def pathJoin_def Clean_def)

lemma docs_tag_paths:
  "tagFile ''docs'' ''a'' = ''docs/tag/a.html''"
  "tagFile ''docs'' ''b'' = ''docs/tag/b.html''"
  "tagFile ''docs'' ''./a'' = ''docs/tag/a.html''"
  "tagFile ''docs'' ''../index'' = ''docs/index.html''"
  by (simp_all add: tagFile_def pathJoin_def Clean_def)

lemma docs_tag_parents:
  "parentDir ''docs/tag/a.html'' = ''docs/tag''"
  "parentDir ''docs/tag/b.html'' = ''docs/tag''"
  by (simp_all add: parentDir_def)

lemma parse_X_ab:
  "parseArticle md ''# X'' [''Date: 2015/03/02'', ''Tags: a, b''] =
   (\<lparr>Header = ''X'', Content = md ''# X'', Tags = [''a'', ''b''],
     Date = \<lparr>year = 2015, month = 3, day = 2\<rparr>, Index = 0\<rparr>, None)"
  by (simp add: parseArticle_def HasPrefix_def trim_date date_0302)
     (simp add: TrimLeft_def trim_words)

lemma parseFile_X_ab:
  "parseFile md (Some [''# X'', ''Date: 2015/03/02'', ''Tags: a, b'']) =
   Inr [zeroArticle,
        \<lparr>Header = ''X'', Content = md ''# X'', Tags = [''a'', ''b''],
          Date = \<lparr>year = 2015, month = 3, day = 2\<rparr>, Index = 1\<rparr>]"
  by (simp add: parseFile_def finish_def parse_X_ab reverse_def HasPrefix_def)

lemma Generate_X_ab_ok:
  "fst (Generate plainText (\<lambda>m. m) (Some [''# X'', ''Date: 2015/03/02'', ''Tags: a, b'']) ''docs'' emptyDocs) = None"
  by (simp add: Generate_def parseFile_X_ab generateIndex_eq generateArticlePage_eq generateTags_def
      generateTagFile_eq OpenFile_create Mkdir_def exists_def canOpen_def emptyDocs_def zeroArticle_def
      docs_paths docs_parents docs_tag_paths docs_tag_parents contentOf_def)

lemma parse_X_dot:
  "parseArticle md ''# X'' [''Date: 2015/03/02'', ''Tags: a, ./a''] =
   (\<lparr>Header = ''X'', Content = md ''# X'', Tags = [''a'', ''./a''],
     Date = \<lparr>year = 2015, month = 3, day = 2\<rparr>, Index = 0\<rparr>, None)"
  by (simp add: parseArticle_def HasPrefix_def trim_date date_0302)
     (simp add: TrimLeft_def trim_words)

lemma parseFile_X_dot:
  "parseFile md (Some [''# X'', ''Date: 2015/03/02'', ''Tags: a, ./a'']) =
   Inr [zeroArticle,
        \<lparr>Header = ''X'', Content = md ''# X'', Tags = [''a'', ''./a''],
          Date = \<lparr>year = 2015, month = 3, day = 2\<rparr>, Index = 1\<rparr>]"
  by (simp add: parseFile_def finish_def parse_X_dot reverse_def HasPrefix_def)

lemma Generate_X_dot_id:
  "files (snd (Generate plainText (\<lambda>m. m) (Some [''# X'', ''Date: 2015/03/02'', ''Tags: a, ./a'']) ''docs'' emptyDocs))
     ''docs/tag/a.html'' =
   Some (writeOver
     (execTag [\<lparr>Header = ''X'', Content = plainText ''# X'', Tags = [''a'', ''./a''],
                 Date = \<lparr>year = 2015, month = 3, day = 2\<rparr>, Index = 1\<rparr>] ''a'')
     (execTag [\<lparr>Header = ''X'', Content = plainText ''# X'', Tags = [''a'', ''./a''],
                 Date = \<lparr>year = 2015, month = 3, day = 2\<rparr>, Index = 1\<rparr>] ''./a''))"
  by (simp add: Generate_def parseFile_X_dot generateIndex_eq generateArticlePage_eq generateTags_def
      generateTagFile_eq OpenFile_create Mkdir_def exists_def canOpen_def emptyDocs_def zeroArticle_def
      docs_paths docs_parents docs_tag_paths docs_tag_parents contentOf_def writeOver_Nil)

lemma Generate_X_dot_rev:
  "files (snd (Generate plainText rev (Some [''# X'', ''Date: 2015/03/02'', ''Tags: a, ./a'']) ''docs'' emptyDocs))
     ''docs/tag/a.html'' =
   Some (writeOver
     (execTag [\<lparr>Header = ''X'', Content = plainText ''# X'', Tags = [''a'', ''./a''],
                 Date = \<lparr>year = 2015, month = 3, day = 2\<rparr>, Index = 1\<rparr>] ''./a'')
     (execTag [\<lparr>Header = ''X'', Content = plainText ''# X'', Tags = [''a'', ''./a''],
                 Date = \<lparr>year = 2015, month = 3, day = 2\<rparr>, Index = 1\<rparr>] ''a''))"
  by (simp add: Generate_def parseFile_X_dot generateIndex_eq generateArticlePage_eq generateTags_def
      generateTagFile_eq OpenFile_create Mkdir_def exists_def canOpen_def emptyDocs_def zeroArticle_def
      docs_paths docs_parents docs_tag_paths docs_tag_parents contentOf_def writeOver_Nil)

lemma Generate_X_dot_twice:
  "files (snd (Generate plainText rev (Some [''# X'', ''Date: 2015/03/02'', ''Tags: a, ./a'']) ''docs''
     (snd (Generate plainText (\<lambda>m. m) (Some [''# X'', ''Date: 2015/03/02'', ''Tags: a, ./a'']) ''docs'' emptyDocs))))
     ''docs/tag/a.html'' =
   Some (writeOver (writeOver (writeOver
     (execTag [\<lparr>Header = ''X'', Content = plainText ''# X'', Tags = [''a'', ''./a''],
                 Date = \<lparr>year = 2015, month = 3, day = 2\<rparr>, Index = 1\<rparr>] ''a'')
     (execTag [\<lparr>Header = ''X'', Content = plainText ''# X'', Tags = [''a'', ''./a''],
                 Date = \<lparr>year = 2015, month = 3, day = 2\<rparr>, Index = 1\<rparr>] ''./a''))
     (execTag [\<lparr>Header = ''X'', Content = plainText ''# X'', Tags = [''a'', ''./a''],
                 Date = \<lparr>year = 2015, month = 3, day = 2\<rparr>, Index = 1\<rparr>] ''./a''))
     (execTag [\<lparr>Header = ''X'', Content = plainText ''# X'', Tags = [''a'', ''./a''],
                 Date = \<lparr>year = 2015, month = 3, day = 2\<rparr>, Index = 1\<rparr>] ''a''))"
  by (simp add: Generate_def parseFile_X_dot generateIndex_eq generateArticlePage_eq generateTags_def
      generateTagFile_eq OpenFile_create Mkdir_def exists_def canOpen_def emptyDocs_def zeroArticle_def
      docs_paths docs_parents docs_tag_paths docs_tag_parents contentOf_def writeOver_Nil)

lemma parse_X_up:
  "parseArticle md ''# X'' [''Date: 2015/03/02'', ''Tags: ../index''] =
   (\<lparr>Header = ''X'', Content = md ''# X'', Tags = [''../index''],
     Date = \<lparr>year = 2015, month = 3, day = 2\<rparr>, Index = 0\<rparr>, None)"
  by (simp add: parseArticle_def HasPrefix_def trim_date date_0302)
     (simp add: TrimLeft_def trim_words)

lemma generateTags_up:
  "contentOf (snd (generateTags (\<lambda>m. m) ''docs''
      [\<lparr>Header = ''X'', Content = c, Tags = [''../index''], Date = d, Index = 1\<rparr>] homeOnly))
     ''docs/index.html'' =
   writeOver (homeHead @ homeFoot)
     (execTag [\<lparr>Header = ''X'', Content = c, Tags = [''../index''], Date = d, Index = 1\<rparr>] ''../index'')"
  by (simp add: generateTags_def generateTagFile_eq OpenFile_create Mkdir_def exists_def canOpen_def
      homeOnly_def docs_paths docs_parents docs_tag_paths contentOf_def)

lemma parse_Hello:
  "parseArticle md ''# Hello World'' [''Date: 2015/03/02'', ''Tags: greeting, test'', ''Hello **world**.''] =
   (\<lparr>Header = ''Hello World'', Content = md ''# Hello World\<newline>Hello **world**.'',
     Tags = [''greeting'', ''test''],
     Date = \<lparr>year = 2015, month = 3, day = 2\<rparr>, Index = 0\<rparr>, None)"
  by (simp add: parseArticle_def HasPrefix_def trim_date date_0302)
     (simp add: TrimSpace_def TrimLeft_def spaceRunes_def HasPrefix_def)

lemma parseFile_AC:
  "parseFile md (Some [''# A'', ''Date: 2015/03/02'', ''# C'', ''Date: 2015/03/03'']) =
   Inr [zeroArticle, zeroArticle,
        \<lparr>Header = ''C'', Content = md ''# C'', Tags = [[]],
          Date = \<lparr>year = 2015, month = 3, day = 3\<rparr>, Index = 2\<rparr>,
        \<lparr>Header = ''A'', Content = md ''# A'', Tags = [[]],
          Date = \<lparr>year = 2015, month = 3, day = 2\<rparr>, Index = 1\<rparr>]"
  by (simp add: parseFile_def finish_def parse_A parse_C reverse_def HasPrefix_def)

lemma docs_article_2: "articleFile ''docs'' 2 = ''docs/2.html''"
  by (simp add: articleFile_def pathJoin_def Clean_def Sprintf_d_def decimal.simps digitChar_def)

lemma parseFile_no_heading: "parseFile md (Some [''no heading'']) = Inr []"
  by (simp add: parseFile_def finish_def HasPrefix_def reverse_Nil)

lemma Generate_staleHome:
  "fst (Generate plainText (\<lambda>m. m) (Some [''no heading'']) ''docs'' staleHome) = None"
  by (simp add: Generate_def parseFile_no_heading generateIndex_eq generateTags_def
      OpenFile_create Mkdir_def exists_def canOpen_def staleHome_def docs_paths docs_parents contentOf_def)

lemma date_0230: "snd (timeParse ''2015/02/30'') \<noteq> None"
  by (simp add: timeParse_def isDigit_def digitVal_def daysIn_def isLeap_def)

lemma trim_0230: "TrimSpace '' 2015/02/30'' = ''2015/02/30''"
  by (simp add: TrimSpace_def spaceRunes_def HasPrefix_def)

lemma date_a0302: "snd (timeParse ''a2015/03/02'') \<noteq> None"
  by (simp add: timeParse_def isDigit_def)

lemma trim_a0302: "TrimSpace ''a2015/03/02'' = ''a2015/03/02''" "TrimSpace ''2015/03/02'' = ''2015/03/02''"
  "TrimSpace ''L'' = ''L''"
  by (simp_all add: TrimSpace_def spaceRunes_def HasPrefix_def)

lemma parse_L:
  "parseArticle md ''# L'' [''Date:a2015/03/02''] =
   (\<lparr>Header = ''L'', Content = md ''# L'', Tags = [[]],
     Date = \<lparr>year = 2015, month = 3, day = 2\<rparr>, Index = 0\<rparr>, None)"
  by (simp add: parseArticle_def HasPrefix_def TrimLeft_def trim_a0302 date_0302 TrimSpace_Nil)

lemma generateTags_ab_empty:
  "generateTags rev ''docs''
      [\<lparr>Header = ''X'', Content = c, Tags = [''a'', ''b''], Date = d, Index = 1\<rparr>] emptyDocs =
   (None, \<lparr>dirs = {''docs/tag'', ''docs''},
           files = [''docs/index.html'' \<mapsto> [],
                    ''docs/tag/b.html'' \<mapsto> execTag [\<lparr>Header = ''X'', Content = c, Tags = [''a'', ''b''], Date = d, Index = 1\<rparr>] ''b'',
                    ''docs/tag/a.html'' \<mapsto> execTag [\<lparr>Header = ''X'', Content = c, Tags = [''a'', ''b''], Date = d, Index = 1\<rparr>] ''a'']\<rparr>)"
  by (simp add: generateTags_def generateTagFile_eq OpenFile_create Mkdir_def exists_def canOpen_def
      emptyDocs_def docs_paths docs_parents docs_tag_paths docs_tag_parents contentOf_def writeOver_Nil)

section \<open>The claims\<close>

text \<open>
  Claim C1: for a well-formed notes file, \<open>Generate\<close> writes exactly one article page
  per heading line, at \<open>{index}.html\<close>. The program does otherwise: \<open>reverse\<close> puts
  one zero article in front of the list for every record, and each zero article is
  written to \<open>0.html\<close>. For a file with the single heading \<open># A\<close> and a valid date,
  into an empty directory \<open>docs\<close>, the files that exist afterwards are the index, the
  tag page of the empty tag, and two article pages, \<open>0.html\<close> and \<open>1.html\<close>.
\<close>

theorem one_heading_two_pages:
  "dom (files (snd (Generate md (\<lambda>m. m) (Some [''# A'', ''Date: 2015/03/02'']) ''docs'' emptyDocs))) =
   {''docs/index.html'', ''docs/0.html'', ''docs/1.html'', ''docs/tag/.html''}"
  by (simp add: Generate_def parseFile_A generateIndex_eq generateArticlePage_eq generateTags_def
      generateTagFile_eq OpenFile_create Mkdir_def exists_def canOpen_def emptyDocs_def zeroArticle_def
      docs_paths docs_parents contentOf_def)
     auto

text \<open>
  Claim C2: the list \<open>parseFile\<close> returns is the reverse of the finalized records,
  nothing added and nothing removed. The program adds elements: for two records the list
  returned has four articles, two zero articles and then the two records reversed.
\<close>

theorem returned_list_has_zero_articles:
  "parseFile md (Some [''# A'', ''Date: 2015/03/02'', ''# B'', ''Date: 2015/03/03'', ''Tags: go, web'']) =
   Inr ([zeroArticle, zeroArticle] @
        rev [\<lparr>Header = ''A'', Content = md ''# A'', Tags = [[]],
               Date = \<lparr>year = 2015, month = 3, day = 2\<rparr>, Index = 1\<rparr>,
             \<lparr>Header = ''B'', Content = md ''# B'', Tags = [''go'', ''web''],
               Date = \<lparr>year = 2015, month = 3, day = 3\<rparr>, Index = 2\<rparr>])"
  by (simp add: parseFile_def finish_def parse_A parse_B_spaced reverse_def HasPrefix_def)

text \<open>
  Claim C3: the \<open>Index\<close> values of the articles \<open>parseFile\<close> returns are pairwise
  unique and are 1, 2, 3, ... in file order. For two records the values returned are
  0, 0, 2, 1: the records carry 1 and 2 in file order, and the two zero articles that
  \<open>reverse\<close> puts in front share the value 0.
\<close>

theorem index_zero_twice:
  "map_sum id (map Index)
     (parseFile md (Some [''# A'', ''Date: 2015/03/02'', ''# C'', ''Date: 2015/03/03''])) =
   Inr [0, 0, 2, 1]"
  by (simp add: parseFile_def finish_def parse_A parse_C reverse_def HasPrefix_def zeroArticle_def)

text \<open>
  Claim C4, amended: if one of the records \<open>parseFile\<close> forms has no \<open>Date:\<close> line in
  its body, or a date text that does not parse as year/month/day, then \<open>parseFile\<close>
  returns an error and \<open>Generate\<close> returns that error and leaves the file system as
  it was. The date text is that of the last \<open>Date:\<close> line of the body, with the five
  characters of the prefix removed and the rest trimmed; the lines in which one of the
  characters D, a, t, e or colon follows the prefix are left out of the statement. The
  body of a record holds the lines since the previous heading line; the body of the first
  record also holds the lines that precede the first heading line (\<open>records_spec\<close>).
\<close>

theorem date_failure_aborts:
  assumes "(h, b) \<in> set (records ls)"
    and "(\<forall>l\<in>set b. \<not> HasPrefix l ''Date:'') \<or>
         prefixOnly ''Date:'' (lastWithPrefix ''Date:'' b) \<and> snd (timeParse (specDateText b)) \<noteq> None"
  shows "\<exists>e. parseFile md (Some ls) = Inl e \<and> Generate md visit (Some ls) base s = (Some e, s)"
proof -
  have "snd (timeParse (dateArg b)) \<noteq> None"
  proof (cases "\<forall>l\<in>set b. \<not> HasPrefix l ''Date:''")
    case True
    then have "lastWithPrefix ''Date:'' b = []" by (rule lastWithPrefix_none)
    then show ?thesis by (simp add: dateArg_def TrimLeft_def TrimSpace_Nil timeParse_empty)
  next
    case False
    with assms(2) have "prefixOnly ''Date:'' (lastWithPrefix ''Date:'' b)"
      and "snd (timeParse (specDateText b)) \<noteq> None" by blast+
    then show ?thesis by (simp add: dateArg_spec)
  qed
  then have "isl (parseFile md (Some ls))"
    using assms(1) by (auto simp: parseFile_error_iff)
  then obtain e where "parseFile md (Some ls) = Inl e" by (cases "parseFile md (Some ls)") auto
  then show ?thesis by (simp add: Generate_def)
qed

text \<open>
  The amended claim C4 at a file whose only record has no \<open>Date:\<close> line, and at a
  file whose only record is dated 30 February.
\<close>

theorem date_failure_aborts_witness:
  "(''# A'', [''no date here'']) \<in> set (records [''# A'', ''no date here'']) \<and>
   \<not> HasPrefix ''no date here'' ''Date:'' \<and>
   (\<exists>e. parseFile plainText (Some [''# A'', ''no date here'']) = Inl e \<and>
        Generate plainText (\<lambda>m. m) (Some [''# A'', ''no date here'']) ''docs'' emptyDocs = (Some e, emptyDocs)) \<and>
   (''# A'', [''Date: 2015/02/30'']) \<in> set (records [''# A'', ''Date: 2015/02/30'']) \<and>
   prefixOnly ''Date:'' (lastWithPrefix ''Date:'' [''Date: 2015/02/30'']) \<and>
   specDateText [''Date: 2015/02/30''] = ''2015/02/30'' \<and>
   snd (timeParse (specDateText [''Date: 2015/02/30''])) \<noteq> None \<and>
   (\<exists>e. parseFile plainText (Some [''# A'', ''Date: 2015/02/30'']) = Inl e \<and>
        Generate plainText (\<lambda>m. m) (Some [''# A'', ''Date: 2015/02/30'']) ''docs'' emptyDocs = (Some e, emptyDocs))"
proof -
  have h1: "(''# A'', [''no date here'']) \<in> set (records [''# A'', ''no date here''])"
    by (simp add: records_def HasPrefix_def)
  have n: "\<not> HasPrefix ''no date here'' ''Date:''" by (simp add: HasPrefix_def)
  then have h2: "(\<forall>l\<in>set [''no date here'']. \<not> HasPrefix l ''Date:'') \<or>
      prefixOnly ''Date:'' (lastWithPrefix ''Date:'' [''no date here'']) \<and>
      snd (timeParse (specDateText [''no date here''])) \<noteq> None"
    by simp
  have k1: "(''# A'', [''Date: 2015/02/30'']) \<in> set (records [''# A'', ''Date: 2015/02/30''])"
    by (simp add: records_def HasPrefix_def)
  have l: "lastWithPrefix ''Date:'' [''Date: 2015/02/30''] = ''Date: 2015/02/30''"
    by (simp add: lastWithPrefix_def HasPrefix_def)
  have k2: "prefixOnly ''Date:'' (lastWithPrefix ''Date:'' [''Date: 2015/02/30''])"
    by (simp add: l prefixOnly_def)
  have t: "specDateText [''Date: 2015/02/30''] = ''2015/02/30''"
    by (simp add: specDateText_def l trim_0230)
  have k3: "snd (timeParse (specDateText [''Date: 2015/02/30''])) \<noteq> None"
    by (simp add: t date_0230)
  have k: "(\<forall>l\<in>set [''Date: 2015/02/30'']. \<not> HasPrefix l ''Date:'') \<or>
      prefixOnly ''Date:'' (lastWithPrefix ''Date:'' [''Date: 2015/02/30'']) \<and>
      snd (timeParse (specDateText [''Date: 2015/02/30''])) \<noteq> None"
    using k2 k3 by blast
  from date_failure_aborts [OF h1 h2, of plainText "\<lambda>m. m" "''docs''" emptyDocs]
    date_failure_aborts [OF k1 k, of plainText "\<lambda>m. m" "''docs''" emptyDocs]
    h1 n k1 k2 t k3
  show ?thesis by blast
qed

text \<open>
  Claim C4 as stated fails. In the file of the two lines \<open>Date: 2015/03/02\<close> and
  \<open># A\<close>, the record that starts at the heading has no line after it, so its
  \<open>Date:\<close> line is missing; yet \<open>parseFile\<close> returns no error, because the line
  before the heading is in the body the program parses.
\<close>

theorem date_before_first_heading_counterexample:
  "specRecords [''Date: 2015/03/02'', ''# A''] = [(''# A'', [])] \<and>
   lastWithPrefix ''Date:'' [] = [] \<and>
   snd (timeParse (specDateText [])) \<noteq> None \<and>
   \<not> isl (parseFile plainText (Some [''Date: 2015/03/02'', ''# A'']))"
proof -
  have "records [''Date: 2015/03/02'', ''# A''] = [(''# A'', [''Date: 2015/03/02''])]"
    by (simp add: records_def HasPrefix_def)
  moreover have "dateArg [''Date: 2015/03/02''] = ''2015/03/02''"
    by (simp add: dateArg_def lastWithPrefix_def HasPrefix_def trim_date)
  ultimately have "\<not> isl (parseFile plainText (Some [''Date: 2015/03/02'', ''# A'']))"
    by (simp add: parseFile_error_iff date_0302)
  moreover have "specDateText [] = []"
    by (simp add: specDateText_def lastWithPrefix_def TrimSpace_Nil)
  ultimately show ?thesis by (simp add: HasPrefix_def timeParse_empty lastWithPrefix_def)
qed

text \<open>
  Claim C5: the tag list is what remains after exactly the five characters \<open>Tags:\<close>
  are removed from the line, split on commas, each piece trimmed. The program calls
  \<open>strings.TrimLeft\<close> with the cutset \<open>Tags:\<close>, which also removes the characters
  T, a, g, s and colon that follow the prefix: the line \<open>Tags:go,web\<close> gives the tags
  \<open>o\<close> and \<open>web\<close>, where the claim says \<open>go\<close> and \<open>web\<close>.
\<close>

theorem tags_cutset_not_prefix:
  "Tags (fst (parseArticle md ''# B'' [''Date: 2015/03/03'', ''Tags:go,web''])) = [''o'', ''web''] \<and>
   specTags ''Tags:go,web'' = [''go'', ''web'']"
  by (simp add: parse_B specTags_def trim_words)

text \<open>
  Claim C6: for a record with no line that begins with \<open>Tags:\<close>, the tag list of the
  parsed article is the one-element list that holds the empty string.
\<close>

theorem no_Tags_line_single_empty_tag:
  assumes "\<forall>l\<in>set lines. \<not> HasPrefix l ''Tags:''"
    and "snd (parseArticle md header lines) = None"
  shows "Tags (fst (parseArticle md header lines)) = [[]]"
  using parseArticle_Tags [OF assms(2)] lastWithPrefix_none [OF assms(1)]
  by (simp add: TrimLeft_def TrimSpace_Nil)

text \<open>Claim C6 at a record that has a date and no \<open>Tags:\<close> line.\<close>

theorem no_Tags_line_single_empty_tag_witness:
  "\<not> HasPrefix ''Date: 2015/03/02'' ''Tags:'' \<and>
   snd (parseArticle plainText ''# A'' [''Date: 2015/03/02'']) = None \<and>
   Tags (fst (parseArticle plainText ''# A'' [''Date: 2015/03/02''])) = [[]]"
proof -
  have h1: "\<forall>l\<in>set [''Date: 2015/03/02'']. \<not> HasPrefix l ''Tags:''"
    by (simp add: HasPrefix_def)
  have h2: "snd (parseArticle plainText ''# A'' [''Date: 2015/03/02'']) = None"
    by (simp add: parse_A)
  from no_Tags_line_single_empty_tag [OF h1 h2] h1 h2 show ?thesis by simp
qed

text \<open>
  Claim C7: every output file (index page, article pages, tag pages) is opened for
  reading and writing, created if missing, and never truncated, so the bytes of an
  existing file beyond the new content stay. Whenever the file can be opened, each of the
  three writers succeeds and changes only its own file, whose content becomes the
  rendered page followed by what the file held beyond the length of that page (nothing,
  for a file that was missing or shorter).
\<close>

theorem output_files_never_truncated:
  "(canOpen (indexFile base) s \<longrightarrow>
      generateIndex base articles s =
        (None, s\<lparr>files := (files s)(indexFile base \<mapsto>
           execHome (prepareForRender articles) @
           drop (length (execHome (prepareForRender articles))) (contentOf s (indexFile base)))\<rparr>)) \<and>
   (canOpen (articleFile base (Index a)) s \<longrightarrow>
      generateArticlePage base a s =
        (None, s\<lparr>files := (files s)(articleFile base (Index a) \<mapsto>
           execPage \<lparr>page_Content = Content a, page_StringDate = Format (Date a),
                       page_Tags = Tags a\<rparr> @
           drop (length (execPage \<lparr>page_Content = Content a, page_StringDate = Format (Date a),
                                     page_Tags = Tags a\<rparr>))
             (contentOf s (articleFile base (Index a))))\<rparr>)) \<and>
   (canOpen (tagFile base tag) s \<longrightarrow>
      generateTagFile base tag as s =
        (None, s\<lparr>files := (files s)(tagFile base tag \<mapsto>
           execTag as tag @ drop (length (execTag as tag)) (contentOf s (tagFile base tag)))\<rparr>))"
  by (simp add: generateIndex_eq generateArticlePage_eq generateTagFile_eq writeOver_def)

text \<open>
  Claim C7 in a directory whose three files hold an earlier page followed by the five
  bytes \<open>STALE\<close>: after each writer has run, the five bytes are still there.
\<close>

theorem output_files_never_truncated_witness:
  "canOpen (indexFile ''docs'') staleDocs \<and>
   canOpen (articleFile ''docs'' (Index articleA)) staleDocs \<and>
   canOpen (tagFile ''docs'' ''go'') staleDocs \<and>
   files (snd (generateIndex ''docs'' [articleA] staleDocs)) ''docs/index.html'' =
     Some (execHome (prepareForRender [articleA]) @ ''STALE'') \<and>
   files (snd (generateArticlePage ''docs'' articleA staleDocs)) ''docs/1.html'' =
     Some (execPage \<lparr>page_Content = Content articleA, page_StringDate = Format (Date articleA),
                       page_Tags = Tags articleA\<rparr> @ ''STALE'') \<and>
   files (snd (generateTagFile ''docs'' ''go'' [articleA] staleDocs)) ''docs/tag/go.html'' =
     Some (execTag [articleA] ''go'' @ ''STALE'')"
proof -
  have i: "Index articleA = 1" by (simp add: articleA_def)
  have h1: "canOpen (indexFile ''docs'') staleDocs"
    by (simp add: canOpen_def staleDocs_def docs_paths)
  have h2: "canOpen (articleFile ''docs'' (Index articleA)) staleDocs"
    by (simp add: canOpen_def staleDocs_def docs_paths i)
  have h3: "canOpen (tagFile ''docs'' ''go'') staleDocs"
    by (simp add: canOpen_def staleDocs_def docs_tag_go)
  from output_files_never_truncated [of "''docs''" staleDocs "[articleA]" articleA "''go''" "[articleA]"]
    h1 h2 h3
  show ?thesis
    by (simp add: docs_paths docs_tag_go i contentOf_def staleDocs_def)
qed

text \<open>
  Claim C8: for a notes file with no line that starts with \<open>#\<close> and a space,
  \<open>parseFile\<close> returns the empty sequence and no error, and \<open>Generate\<close> writes no
  article page, no tag page, and an index page with an empty listing: the only file
  whose content changes is the index, which receives the head and the foot of the home
  template with no item between them (and nothing changes when the index cannot be
  opened).
\<close>

theorem no_heading_lines:
  assumes "\<forall>l\<in>set ls. \<not> HasPrefix l ''# ''" and "isOrder visit"
  shows "parseFile md (Some ls) = Inr [] \<and>
         files (snd (Generate md visit (Some ls) base s)) =
           (if canOpen (indexFile base) s
            then (files s)(indexFile base \<mapsto> writeOver (contentOf s (indexFile base)) (homeHead @ homeFoot))
            else files s)"
proof -
  have p: "parseFile md (Some ls) = Inr []"
    by (simp add: parseFile_records no_heading_records [OF assms(1)] reverse_Nil)
  show ?thesis
  proof (cases "canOpen (indexFile base) s")
    case False
    then show ?thesis by (simp add: p Generate_def generateIndex_eq)
  next
    case True
    let ?s1 = "s\<lparr>files := (files s)(indexFile base \<mapsto>
                 writeOver (contentOf s (indexFile base)) (homeHead @ homeFoot))\<rparr>"
    have "Generate md visit (Some ls) base s = generateTags visit base [] ?s1"
      using True by (simp add: p Generate_def generateIndex_eq execHome_Nil)
    moreover have "files (snd (generateTags visit base [] ?s1)) = files ?s1"
      by (rule generateTags_no_articles [OF assms(2)]) simp
    ultimately show ?thesis using True by (simp add: p)
  qed
qed

text \<open>Claim C8 at a file of two lines, neither a heading, into the empty directory.\<close>

theorem no_heading_lines_witness:
  "\<not> HasPrefix ''just a line'' ''# '' \<and> \<not> HasPrefix ''Date: 2015/03/02'' ''# '' \<and>
   isOrder (\<lambda>m. m) \<and>
   parseFile plainText (Some [''just a line'', ''Date: 2015/03/02'']) = Inr [] \<and>
   files (snd (Generate plainText (\<lambda>m. m) (Some [''just a line'', ''Date: 2015/03/02'']) ''docs'' emptyDocs)) =
     [''docs/index.html'' \<mapsto> homeHead @ homeFoot]"
proof -
  have h1: "\<forall>l\<in>set [''just a line'', ''Date: 2015/03/02'']. \<not> HasPrefix l ''# ''"
    by (simp add: HasPrefix_def)
  from no_heading_lines [OF h1 isOrder_id, of plainText "''docs''" emptyDocs] h1 isOrder_id
  show ?thesis
    by (simp add: canOpen_def emptyDocs_def docs_paths docs_parents contentOf_def writeOver_def)
qed

text \<open>
  Claim C9, amended: if no two tags of the parsed articles share a tag file path, and a
  run of \<open>Generate\<close> succeeds, then a run on the same notes file that visits the tag
  map in any other order succeeds too and leaves the same directories and the same bytes
  in every file, both when it starts from the same output directory (the empty one, or
  any other) and when it starts from what the first run left.
\<close>

theorem Generate_order_independent:
  assumes v1: "isOrder visit1" and v2: "isOrder visit2"
    and parsed: "parseFile md notes = Inr arr"
    and inj: "inj_on (tagFile base) (tagsOf arr)"
    and ok: "fst (Generate md visit1 notes base s) = None"
  shows "Generate md visit2 notes base s = Generate md visit1 notes base s \<and>
         Generate md visit2 notes base (snd (Generate md visit1 notes base s)) =
         Generate md visit1 notes base s"
proof -
  let ?s' = "snd (Generate md visit1 notes base s)"
  have run1: "Generate md visit1 notes base s = (None, ?s')"
    using ok by (simp add: prod_eq_iff)
  have same: "Generate md visit2 notes base s = Generate md visit1 notes base s"
    using v1 v2 parsed inj ok by (rule Generate_perm)
  have again: "Generate md visit1 notes base ?s' = (None, ?s')"
    using parsed run1 by (rule Generate_again)
  then have "fst (Generate md visit1 notes base ?s') = None" by simp
  then have "Generate md visit2 notes base ?s' = Generate md visit1 notes base ?s'"
    using v1 v2 parsed inj by (intro Generate_perm)
  then show ?thesis using same again run1 by simp
qed

text \<open>
  The amended claim C9 at a file with one record tagged \<open>a\<close> and \<open>b\<close>, the map
  visited in insertion order and in the opposite order.
\<close>

theorem Generate_order_independent_witness:
  "isOrder (\<lambda>m. m) \<and> isOrder rev \<and>
   parseFile plainText (Some [''# X'', ''Date: 2015/03/02'', ''Tags: a, b'']) =
     Inr [zeroArticle,
          \<lparr>Header = ''X'', Content = plainText ''# X'', Tags = [''a'', ''b''],
            Date = \<lparr>year = 2015, month = 3, day = 2\<rparr>, Index = 1\<rparr>] \<and>
   tagFile ''docs'' ''a'' \<noteq> tagFile ''docs'' ''b'' \<and>
   fst (Generate plainText (\<lambda>m. m) (Some [''# X'', ''Date: 2015/03/02'', ''Tags: a, b'']) ''docs'' emptyDocs) = None \<and>
   Generate plainText rev (Some [''# X'', ''Date: 2015/03/02'', ''Tags: a, b'']) ''docs'' emptyDocs =
   Generate plainText (\<lambda>m. m) (Some [''# X'', ''Date: 2015/03/02'', ''Tags: a, b'']) ''docs'' emptyDocs \<and>
   Generate plainText rev (Some [''# X'', ''Date: 2015/03/02'', ''Tags: a, b'']) ''docs''
     (snd (Generate plainText (\<lambda>m. m) (Some [''# X'', ''Date: 2015/03/02'', ''Tags: a, b'']) ''docs'' emptyDocs)) =
   Generate plainText (\<lambda>m. m) (Some [''# X'', ''Date: 2015/03/02'', ''Tags: a, b'']) ''docs'' emptyDocs"
proof -
  have d: "tagFile ''docs'' ''a'' \<noteq> tagFile ''docs'' ''b''" by (simp add: docs_tag_paths)
  then have inj: "inj_on (tagFile ''docs'')
     (tagsOf [zeroArticle,
          \<lparr>Header = ''X'', Content = plainText ''# X'', Tags = [''a'', ''b''],
            Date = \<lparr>year = 2015, month = 3, day = 2\<rparr>, Index = 1\<rparr>])"
    by (simp add: tagsOf_def zeroArticle_def)
  from Generate_order_independent [OF isOrder_id isOrder_rev parseFile_X_ab inj Generate_X_ab_ok]
    isOrder_id isOrder_rev parseFile_X_ab [of plainText] d Generate_X_ab_ok
  show ?thesis by blast
qed

text \<open>
  Claim C9 as stated fails. \<open>path.Join\<close> cleans the path, so the tags \<open>a\<close> and
  \<open>./a\<close> are written to the same file \<open>docs/tag/a.html\<close>; the two pages differ, and
  the bytes the file ends with depend on which of the two tags the map yields last. Two
  runs that visit the map in opposite orders leave different bytes in that file, both
  when each starts from the empty directory and when the second starts from what the
  first has left.
\<close>

theorem tag_paths_collide_counterexample:
  "isOrder (\<lambda>m. m) \<and> isOrder rev \<and>
   files (snd (Generate plainText (\<lambda>m. m) (Some [''# X'', ''Date: 2015/03/02'', ''Tags: a, ./a'']) ''docs'' emptyDocs))
     ''docs/tag/a.html'' \<noteq>
   files (snd (Generate plainText rev (Some [''# X'', ''Date: 2015/03/02'', ''Tags: a, ./a'']) ''docs'' emptyDocs))
     ''docs/tag/a.html'' \<and>
   files (snd (Generate plainText (\<lambda>m. m) (Some [''# X'', ''Date: 2015/03/02'', ''Tags: a, ./a'']) ''docs'' emptyDocs))
     ''docs/tag/a.html'' \<noteq>
   files (snd (Generate plainText rev (Some [''# X'', ''Date: 2015/03/02'', ''Tags: a, ./a'']) ''docs''
     (snd (Generate plainText (\<lambda>m. m) (Some [''# X'', ''Date: 2015/03/02'', ''Tags: a, ./a'']) ''docs'' emptyDocs))))
     ''docs/tag/a.html''"
  by (simp add: isOrder_id isOrder_rev Generate_X_dot_twice Generate_X_dot_id Generate_X_dot_rev
      writeOver_def execTag_def htmlEscaper_def htmlReplacement_def)

text \<open>
  Claim C10, amended. \<open>generateTags\<close> opens \<open>index.html\<close>, which creates it, empty,
  when it is missing, and writes nothing through the handle: if no tag of the articles has
  \<open>index.html\<close> as its tag file path, \<open>index.html\<close> keeps its content, and a missing
  \<open>index.html\<close> stays missing or becomes an empty file; after a step that succeeds it
  exists. A path that is not the tag file path of one of the articles' tags keeps its
  content, and apart from \<open>index.html\<close> it is neither created nor removed; the only
  directory that may be new is the tag directory \<open>path.Join(base, "tag")\<close>. The tag
  file path of a tag lies under the tag directory when no element of the tag followed by
  \<open>.html\<close>, read between slashes, is \<open>..\<close>, and \<open>index.html\<close> does not lie under
  it: when no tag has such an element, every path that is not under the tag directory
  keeps its content.
\<close>

theorem generateTags_keeps_other_files:
  assumes "isOrder visit"
  shows "((\<forall>t\<in>tagsOf articles. tagFile base t \<noteq> indexFile base) \<longrightarrow>
            contentOf (snd (generateTags visit base articles s)) (indexFile base) = contentOf s (indexFile base) \<and>
            (files (snd (generateTags visit base articles s)) (indexFile base) = files s (indexFile base) \<or>
             files s (indexFile base) = None \<and>
             files (snd (generateTags visit base articles s)) (indexFile base) = Some [])) \<and>
         (fst (generateTags visit base articles s) = None \<longrightarrow>
            files (snd (generateTags visit base articles s)) (indexFile base) \<noteq> None) \<and>
         (\<forall>p. p \<notin> tagFile base ` tagsOf articles \<longrightarrow>
            contentOf (snd (generateTags visit base articles s)) p = contentOf s p \<and>
            (p \<noteq> indexFile base \<longrightarrow> files (snd (generateTags visit base articles s)) p = files s p)) \<and>
         (dirs (snd (generateTags visit base articles s)) = dirs s \<or>
          dirs (snd (generateTags visit base articles s)) = insert (pathJoin [base, ''tag'']) (dirs s)) \<and>
         (\<forall>t\<in>tagsOf articles. ''..'' \<notin> set (Split (t @ ''.html'') CHR ''/'') \<longrightarrow>
            isUnder (pathJoin [base, ''tag'']) (tagFile base t)) \<and>
         \<not> isUnder (pathJoin [base, ''tag'']) (indexFile base) \<and>
         ((\<forall>t\<in>tagsOf articles. ''..'' \<notin> set (Split (t @ ''.html'') CHR ''/'')) \<longrightarrow>
            (\<forall>p. \<not> isUnder (pathJoin [base, ''tag'']) p \<longrightarrow>
               contentOf (snd (generateTags visit base articles s)) p = contentOf s p))"
proof -
  define r where "r = generateTags visit base articles s"
  define T where "T = tagFile base ` tagsOf articles"
  define d where "d = pathJoin [base, ''tag'']"
  have sub: "set (visit (buildTagMap [] articles)) \<subseteq> set (buildTagMap [] articles)"
    using assms by (rule isOrder_subset)
  have c: "p \<notin> T \<Longrightarrow> contentOf (snd r) p = contentOf s p" for p
    unfolding r_def T_def using sub by (rule generateTags_contentOf)
  note F = generateTags_files [of visit articles base s, OF sub, folded r_def T_def d_def]
  have u: "\<forall>t\<in>tagsOf articles. ''..'' \<notin> set (Split (t @ ''.html'') CHR ''/'') \<longrightarrow> isUnder d (tagFile base t)"
    by (simp add: tagFile_under d_def)
  have n: "\<not> isUnder d (indexFile base)" unfolding d_def by (rule index_not_under_tag)
  have 1: "(\<forall>t\<in>tagsOf articles. tagFile base t \<noteq> indexFile base) \<longrightarrow>
      contentOf (snd r) (indexFile base) = contentOf s (indexFile base) \<and>
      (files (snd r) (indexFile base) = files s (indexFile base) \<or>
       files s (indexFile base) = None \<and> files (snd r) (indexFile base) = Some [])"
  proof
    assume "\<forall>t\<in>tagsOf articles. tagFile base t \<noteq> indexFile base"
    then have "indexFile base \<notin> T" by (auto simp: T_def)
    then show "contentOf (snd r) (indexFile base) = contentOf s (indexFile base) \<and>
      (files (snd r) (indexFile base) = files s (indexFile base) \<or>
       files s (indexFile base) = None \<and> files (snd r) (indexFile base) = Some [])"
      using c F by blast
  qed
  have 2: "fst r = None \<longrightarrow> files (snd r) (indexFile base) \<noteq> None" using F by blast
  have 3: "\<forall>p. p \<notin> T \<longrightarrow> contentOf (snd r) p = contentOf s p \<and>
      (p \<noteq> indexFile base \<longrightarrow> files (snd r) p = files s p)"
    using c F by blast
  have 4: "dirs (snd r) = dirs s \<or> dirs (snd r) = insert d (dirs s)" using F by blast
  have 7: "(\<forall>t\<in>tagsOf articles. ''..'' \<notin> set (Split (t @ ''.html'') CHR ''/'')) \<longrightarrow>
      (\<forall>p. \<not> isUnder d p \<longrightarrow> contentOf (snd r) p = contentOf s p)"
  proof (intro impI allI)
    fix p
    assume a: "\<forall>t\<in>tagsOf articles. ''..'' \<notin> set (Split (t @ ''.html'') CHR ''/'')" and p: "\<not> isUnder d p"
    have "p \<notin> T" using a p u by (auto simp: T_def)
    then show "contentOf (snd r) p = contentOf s p" by (rule c)
  qed
  show ?thesis
    using 1 2 3 4 u n 7 unfolding r_def T_def d_def by (intro conjI)
qed

text \<open>
  The amended claim C10 at an article tagged \<open>a\<close> and \<open>b\<close>, in an output directory
  that holds an index page and in one that is empty.
\<close>

theorem generateTags_keeps_other_files_witness:
  "isOrder rev \<and>
   tagFile ''docs'' ''a'' \<noteq> indexFile ''docs'' \<and> tagFile ''docs'' ''b'' \<noteq> indexFile ''docs'' \<and>
   contentOf (snd (generateTags rev ''docs''
      [\<lparr>Header = ''X'', Content = ''# X'', Tags = [''a'', ''b''],
         Date = \<lparr>year = 2015, month = 3, day = 2\<rparr>, Index = 1\<rparr>] homeOnly))
     (indexFile ''docs'') =
   contentOf homeOnly (indexFile ''docs'') \<and>
   files emptyDocs (indexFile ''docs'') = None \<and>
   fst (generateTags rev ''docs''
      [\<lparr>Header = ''X'', Content = ''# X'', Tags = [''a'', ''b''],
         Date = \<lparr>year = 2015, month = 3, day = 2\<rparr>, Index = 1\<rparr>] emptyDocs) = None \<and>
   files (snd (generateTags rev ''docs''
      [\<lparr>Header = ''X'', Content = ''# X'', Tags = [''a'', ''b''],
         Date = \<lparr>year = 2015, month = 3, day = 2\<rparr>, Index = 1\<rparr>] emptyDocs))
     (indexFile ''docs'') = Some [] \<and>
   ''..'' \<notin> set (Split ''a.html'' CHR ''/'') \<and> ''..'' \<notin> set (Split ''b.html'' CHR ''/'') \<and>
   isUnder (pathJoin [''docs'', ''tag'']) (tagFile ''docs'' ''a'') \<and>
   isUnder (pathJoin [''docs'', ''tag'']) (tagFile ''docs'' ''b'') \<and>
   \<not> isUnder (pathJoin [''docs'', ''tag'']) ''docs/1.html'' \<and>
   contentOf (snd (generateTags rev ''docs''
      [\<lparr>Header = ''X'', Content = ''# X'', Tags = [''a'', ''b''],
         Date = \<lparr>year = 2015, month = 3, day = 2\<rparr>, Index = 1\<rparr>] emptyDocs)) ''docs/1.html'' =
   contentOf emptyDocs ''docs/1.html'' \<and>
   ''docs/1.html'' \<notin> tagFile ''docs'' ` tagsOf
      [\<lparr>Header = ''X'', Content = ''# X'', Tags = [''a'', ''b''],
         Date = \<lparr>year = 2015, month = 3, day = 2\<rparr>, Index = 1\<rparr>] \<and>
   ''docs/1.html'' \<noteq> indexFile ''docs'' \<and>
   files (snd (generateTags rev ''docs''
      [\<lparr>Header = ''X'', Content = ''# X'', Tags = [''a'', ''b''],
         Date = \<lparr>year = 2015, month = 3, day = 2\<rparr>, Index = 1\<rparr>] emptyDocs)) ''docs/1.html'' =
   files emptyDocs ''docs/1.html''"
proof -
  let ?arts = "[\<lparr>Header = ''X'', Content = ''# X'', Tags = [''a'', ''b''],
         Date = \<lparr>year = 2015, month = 3, day = 2\<rparr>, Index = 1\<rparr>]"
  have a: "tagFile ''docs'' ''a'' \<noteq> indexFile ''docs''" and b: "tagFile ''docs'' ''b'' \<noteq> indexFile ''docs''"
    by (simp_all add: docs_paths docs_tag_paths)
  then have h: "\<forall>t\<in>tagsOf ?arts. tagFile ''docs'' t \<noteq> indexFile ''docs''"
    by (simp add: tagsOf_def)
  have n: "files emptyDocs (indexFile ''docs'') = None" by (simp add: emptyDocs_def)
  have ok: "fst (generateTags rev ''docs'' ?arts emptyDocs) = None"
    by (simp only: generateTags_ab_empty fst_conv)
  have ta: "''a'' \<in> tagsOf ?arts" and tb: "''b'' \<in> tagsOf ?arts" by (simp_all add: tagsOf_def)
  have sa: "''..'' \<notin> set (Split (''a'' @ ''.html'') CHR ''/'')"
    and sb: "''..'' \<notin> set (Split (''b'' @ ''.html'') CHR ''/'')" by simp_all
  then have plain: "\<forall>t\<in>tagsOf ?arts. ''..'' \<notin> set (Split (t @ ''.html'') CHR ''/'')"
    by (simp add: tagsOf_def)
  have out: "\<not> isUnder (pathJoin [''docs'', ''tag'']) ''docs/1.html''"
    by (simp add: docs_paths isUnder_def HasPrefix_def)
  note T1 = generateTags_keeps_other_files [OF isOrder_rev, of ?arts "''docs''" homeOnly]
  note T2 = generateTags_keeps_other_files [OF isOrder_rev, of ?arts "''docs''" emptyDocs]
  have c: "contentOf (snd (generateTags rev ''docs'' ?arts homeOnly)) (indexFile ''docs'') =
      contentOf homeOnly (indexFile ''docs'')"
    using T1 [THEN conjunct1, THEN mp, OF h] by (rule conjunct1)
  have "files (snd (generateTags rev ''docs'' ?arts emptyDocs)) (indexFile ''docs'') \<noteq> None"
    using T2 [THEN conjunct2, THEN conjunct1] ok by (rule mp)
  then have i: "files (snd (generateTags rev ''docs'' ?arts emptyDocs)) (indexFile ''docs'') = Some []"
    using T2 [THEN conjunct1, THEN mp, OF h, THEN conjunct2] n by (simp only:) blast
  note U = T2 [THEN conjunct2, THEN conjunct2, THEN conjunct2, THEN conjunct2, THEN conjunct1]
  have ua: "isUnder (pathJoin [''docs'', ''tag'']) (tagFile ''docs'' ''a'')"
    using U [THEN bspec, OF ta] sa by (rule mp)
  have ub: "isUnder (pathJoin [''docs'', ''tag'']) (tagFile ''docs'' ''b'')"
    using U [THEN bspec, OF tb] sb by (rule mp)
  note V = T2 [THEN conjunct2, THEN conjunct2, THEN conjunct2, THEN conjunct2, THEN conjunct2,
      THEN conjunct2, THEN mp, OF plain, THEN spec, THEN mp, OF out]
  have other: "''docs/1.html'' \<notin> tagFile ''docs'' ` tagsOf ?arts"
    by (simp add: tagsOf_def docs_tag_paths)
  have neq: "''docs/1.html'' \<noteq> indexFile ''docs''" by (simp add: docs_paths)
  note W = T2 [THEN conjunct2, THEN conjunct2, THEN conjunct1, THEN spec, THEN mp, OF other,
      THEN conjunct2, THEN mp, OF neq]
  have "''..'' \<notin> set (Split ''a.html'' CHR ''/'')" "''..'' \<notin> set (Split ''b.html'' CHR ''/'')"
    by simp_all
  with isOrder_rev a b c n ok i ua ub out V other neq W show ?thesis by (simp only: simp_thms)
qed

text \<open>
  Claim C10 as stated fails. The line \<open>Tags: ../index\<close> gives the tag \<open>../index\<close>,
  whose tag file path is \<open>docs/index.html\<close>: \<open>generateTags\<close> writes the page of that
  tag over the index page.
\<close>

theorem tag_page_over_index_counterexample:
  "Tags (fst (parseArticle plainText ''# X'' [''Date: 2015/03/02'', ''Tags: ../index''])) = [''../index''] \<and>
   tagFile ''docs'' ''../index'' = indexFile ''docs'' \<and>
   contentOf (snd (generateTags (\<lambda>m. m) ''docs''
      [\<lparr>Header = ''X'', Content = plainText ''# X'', Tags = [''../index''],
         Date = \<lparr>year = 2015, month = 3, day = 2\<rparr>, Index = 1\<rparr>] homeOnly))
     (indexFile ''docs'') \<noteq>
   contentOf homeOnly (indexFile ''docs'')"
  by (simp add: parse_X_up docs_paths docs_tag_paths generateTags_up)
     (simp add: contentOf_def homeOnly_def writeOver_def execTag_def homeHead_def homeFoot_def
        htmlEscaper_def htmlReplacement_def tab_def)

section \<open>Further properties\<close>

text \<open>
  Extra X1: \<open>reverse\<close> returns as many zero articles as its argument has elements,
  followed by the elements of the argument, last one first.
\<close>

theorem reverse_prepends_zero_articles:
  "reverse res = replicate (length res) zeroArticle @ rev res"
  by (rule reverse_eq)

text \<open>
  Extra X2: when \<open>parseFile\<close> succeeds on a file with \<open>n\<close> heading lines, the
  \<open>Index\<close> values of the list it returns are \<open>n\<close> zeros followed by
  \<open>n, ..., 2, 1\<close>: the records are numbered from 1 in file order and come back last
  one first, behind \<open>n\<close> zero articles.
\<close>

theorem returned_index_values:
  assumes "parseFile md (Some ls) = Inr arr"
  shows "map Index arr =
         replicate (length (filter (\<lambda>l. HasPrefix l ''# '') ls)) 0 @
         rev (map int [1..<Suc (length (filter (\<lambda>l. HasPrefix l ''# '') ls))])"
  using assms by (rule parseFile_Index)

text \<open>Extra X2 at a file with two records.\<close>

theorem returned_index_values_witness:
  "parseFile plainText (Some [''# A'', ''Date: 2015/03/02'', ''# C'', ''Date: 2015/03/03'']) =
   Inr [zeroArticle, zeroArticle,
        \<lparr>Header = ''C'', Content = plainText ''# C'', Tags = [[]],
          Date = \<lparr>year = 2015, month = 3, day = 3\<rparr>, Index = 2\<rparr>,
        \<lparr>Header = ''A'', Content = plainText ''# A'', Tags = [[]],
          Date = \<lparr>year = 2015, month = 3, day = 2\<rparr>, Index = 1\<rparr>] \<and>
   map Index [zeroArticle, zeroArticle,
        \<lparr>Header = ''C'', Content = plainText ''# C'', Tags = [[]],
          Date = \<lparr>year = 2015, month = 3, day = 3\<rparr>, Index = 2\<rparr>,
        \<lparr>Header = ''A'', Content = plainText ''# A'', Tags = [[]],
          Date = \<lparr>year = 2015, month = 3, day = 2\<rparr>, Index = 1\<rparr>] = [0, 0, 2, 1]"
  using returned_index_values [OF parseFile_AC [of plainText]] parseFile_AC [of plainText]
  by (simp add: HasPrefix_def)

text \<open>
  Extra X3: \<open>parseFile\<close> returns an error exactly when, for one of the records it
  forms, \<open>time.Parse\<close> rejects the argument \<open>parseArticle\<close> gives it: the last
  \<open>Date:\<close> line of the body, stripped by \<open>strings.TrimLeft\<close> with the cutset
  \<open>Date:\<close> and trimmed.
\<close>

theorem parse_error_iff_bad_date:
  "isl (parseFile md (Some ls)) \<longleftrightarrow>
   (\<exists>(h, b) \<in> set (records ls). snd (timeParse (dateArg b)) \<noteq> None)"
  by (rule parseFile_error_iff)

text \<open>
  Extra X4: the records \<open>parseFile\<close> forms are the heading lines, each with the lines
  that follow it up to the next heading line, except that the body of the first record
  starts with the lines that precede the first heading line.
\<close>

theorem records_first_body_has_preamble:
  "records ls =
   (case specRecords ls of
      [] \<Rightarrow> []
    | (h, b) # rs \<Rightarrow> (h, takeWhile (\<lambda>x. \<not> HasPrefix x ''# '') ls @ b) # rs)"
  by (rule records_spec)

text \<open>
  Extra X5: when the \<open>Tags:\<close> line of a record that parses has a space after the
  colon, the tag list is the line without its five-character prefix, split on commas,
  each piece trimmed.
\<close>

theorem tags_follow_spec_after_space:
  assumes "snd (parseArticle md header lines) = None"
    and "HasPrefix (lastWithPrefix ''Tags:'' lines) ''Tags: ''"
  shows "Tags (fst (parseArticle md header lines)) = specTags (lastWithPrefix ''Tags:'' lines)"
  using parseArticle_Tags [OF assms(1)] TrimLeft_Tags_space [OF assms(2)]
  by (simp add: specTags_def)

text \<open>Extra X5 at the record of the specification's scenario.\<close>

theorem tags_follow_spec_after_space_witness:
  "snd (parseArticle plainText ''# Hello World''
          [''Date: 2015/03/02'', ''Tags: greeting, test'', ''Hello **world**.'']) = None \<and>
   HasPrefix (lastWithPrefix ''Tags:'' [''Date: 2015/03/02'', ''Tags: greeting, test'', ''Hello **world**.''])
     ''Tags: '' \<and>
   Tags (fst (parseArticle plainText ''# Hello World''
          [''Date: 2015/03/02'', ''Tags: greeting, test'', ''Hello **world**.''])) =
   specTags (lastWithPrefix ''Tags:'' [''Date: 2015/03/02'', ''Tags: greeting, test'', ''Hello **world**.''])"
proof -
  have h1: "snd (parseArticle plainText ''# Hello World''
          [''Date: 2015/03/02'', ''Tags: greeting, test'', ''Hello **world**.'']) = None"
    by (simp add: parse_Hello)
  have h2: "HasPrefix (lastWithPrefix ''Tags:'' [''Date: 2015/03/02'', ''Tags: greeting, test'', ''Hello **world**.''])
     ''Tags: ''"
    by (simp add: lastWithPrefix_def HasPrefix_def)
  from tags_follow_spec_after_space [OF h1 h2] h1 h2 show ?thesis by simp
qed

text \<open>
  Extra X6: when \<open>parseFile\<close> succeeds on a file with \<open>n\<close> heading lines,
  \<open>generateArticlePages\<close> makes \<open>2 * n\<close> writes: \<open>n\<close> to \<open>0.html\<close>, then one
  to each of \<open>n.html\<close>, ..., \<open>1.html\<close>.
\<close>

theorem article_pages_written:
  assumes "parseFile md (Some ls) = Inr arr"
  shows "generateArticlePages base arr s = runOps (articleOps base arr) s \<and>
         map fst (articleOps base arr) =
           replicate (length (filter (\<lambda>l. HasPrefix l ''# '') ls)) (articleFile base 0) @
           rev (map (\<lambda>k. articleFile base (int k))
                  [1..<Suc (length (filter (\<lambda>l. HasPrefix l ''# '') ls))])"
  using parseFile_Index [OF assms]
  by (simp add: generateArticlePages_ops articleOps_paths rev_map del: upt_Suc)

text \<open>Extra X6 at a file with two records.\<close>

theorem article_pages_written_witness:
  "parseFile plainText (Some [''# A'', ''Date: 2015/03/02'', ''# C'', ''Date: 2015/03/03'']) =
   Inr [zeroArticle, zeroArticle,
        \<lparr>Header = ''C'', Content = plainText ''# C'', Tags = [[]],
          Date = \<lparr>year = 2015, month = 3, day = 3\<rparr>, Index = 2\<rparr>,
        \<lparr>Header = ''A'', Content = plainText ''# A'', Tags = [[]],
          Date = \<lparr>year = 2015, month = 3, day = 2\<rparr>, Index = 1\<rparr>] \<and>
   map fst (articleOps ''docs''
     [zeroArticle, zeroArticle,
        \<lparr>Header = ''C'', Content = plainText ''# C'', Tags = [[]],
          Date = \<lparr>year = 2015, month = 3, day = 3\<rparr>, Index = 2\<rparr>,
        \<lparr>Header = ''A'', Content = plainText ''# A'', Tags = [[]],
          Date = \<lparr>year = 2015, month = 3, day = 2\<rparr>, Index = 1\<rparr>]) =
   [''docs/0.html'', ''docs/0.html'', ''docs/2.html'', ''docs/1.html'']"
  using article_pages_written [OF parseFile_AC [of plainText], of "''docs''" emptyDocs]
    parseFile_AC [of plainText]
  by (simp add: HasPrefix_def docs_paths docs_article_2)

text \<open>
  Extra X7: after a run of \<open>Generate\<close> that succeeds, every file holds what the
  writes of the run to its path leave in an empty file, followed by the bytes the file
  held before beyond that length.
\<close>

theorem run_keeps_stale_tails:
  assumes "parseFile md notes = Inr arr"
    and "Generate md visit notes base s = (None, s')"
  shows "contentOf s' p =
         written (writes visit base arr) p @
         drop (length (written (writes visit base arr) p)) (contentOf s p)"
proof -
  have "contentOf s' p = contentOf (fold applyOp (writes visit base arr) s) p"
    using Generate_files [OF assms] by (simp add: contentOf_def)
  then show ?thesis
    using foldl_writeOver_from_empty [of "contentOf s p"]
    by (simp add: contentOf_fold written_def)
qed

text \<open>Extra X7 at a notes file without a heading and an index page with stale bytes.\<close>

theorem run_keeps_stale_tails_witness:
  "parseFile plainText (Some [''no heading'']) = Inr [] \<and>
   fst (Generate plainText (\<lambda>m. m) (Some [''no heading'']) ''docs'' staleHome) = None \<and>
   contentOf (snd (Generate plainText (\<lambda>m. m) (Some [''no heading'']) ''docs'' staleHome)) ''docs/index.html'' =
     homeHead @ homeFoot @ ''STALE''"
proof -
  have g: "Generate plainText (\<lambda>m. m) (Some [''no heading'']) ''docs'' staleHome =
           (None, snd (Generate plainText (\<lambda>m. m) (Some [''no heading'']) ''docs'' staleHome))"
    using Generate_staleHome by (simp add: prod_eq_iff)
  from run_keeps_stale_tails [OF parseFile_no_heading g, of "''docs/index.html''"]
    parseFile_no_heading [of plainText] Generate_staleHome
  show ?thesis
    by (simp add: written_def writes_def articleOps_def tagPages_def docs_paths execHome_Nil
        writeOver_def contentOf_def staleHome_def)
qed

text \<open>
  Extra X8: \<open>parseArticle\<close> strips the \<open>Date:\<close> line with \<open>strings.TrimLeft\<close> and
  the cutset \<open>Date:\<close>, which also removes the characters D, a, t, e and colon that
  follow the prefix. The line \<open>Date:a2015/03/02\<close> has the date text \<open>a2015/03/02\<close>,
  which does not parse; the program parses \<open>2015/03/02\<close> and returns the article.
\<close>

theorem date_cutset_not_prefix:
  "specDateText [''Date:a2015/03/02''] = ''a2015/03/02'' \<and>
   snd (timeParse ''a2015/03/02'') \<noteq> None \<and>
   parseFile md (Some [''# L'', ''Date:a2015/03/02'']) =
   Inr [zeroArticle,
        \<lparr>Header = ''L'', Content = md ''# L'', Tags = [[]],
          Date = \<lparr>year = 2015, month = 3, day = 2\<rparr>, Index = 1\<rparr>]"
  by (simp add: specDateText_def lastWithPrefix_def HasPrefix_def trim_a0302 date_a0302
      parseFile_def finish_def parse_L reverse_def)

end
